theory Spec2Isabelle
  imports Main "HOL-Library.Sublist" "HOL-Library.List_Lexorder" "HOL-Library.Char_ord"
begin

section \<open>The translation store (lib/database)\<close>

text \<open>
  The store is one sql.js table \<open>localizations\<close> held in memory and re-exported to
  \<open>localStorage\<close> after every write. Strings are lists of characters; the store only
  copies and compares them. The operations below are modelled on an initialised database
  handle (the lazy \<open>initializeDatabase\<close> call at the head of each operation has already
  run); the \<open>components\<close> table, which none of these operations touches, is left out.
\<close>

text \<open>The argument of \<open>createLocalization\<close>: an entry without its timestamps.\<close>

record EntryInput =
  rid :: string
  key :: string
  en :: string
  es :: string
  fr :: string
  de :: string
  ja :: string
  zh :: string

text \<open>A row of the table \<open>localizations\<close> (interface \<open>LocalizationEntry\<close>).\<close>

record LocalizationEntry = EntryInput +
  created_at :: string
  updated_at :: string

text \<open>The optional locale values handed to \<open>updateLocalizationByKey\<close>;
  \<open>None\<close> is JavaScript's \<open>undefined\<close>.\<close>

record Translations =
  es_opt :: "string option"
  fr_opt :: "string option"
  de_opt :: "string option"
  ja_opt :: "string option"
  zh_opt :: "string option"

text \<open>
  The state the store operations read and write: the in-memory table (rows in insertion
  order), the two \<open>localStorage\<close> items \<open>localizations_db\<close> (the exported snapshot) and
  \<open>localizations_db_version\<close> (the version marker polled by observers), and whether the
  export and \<open>localStorage.setItem\<close> of the next save go through (they are wrapped in a
  \<open>try\<close> whose \<open>catch\<close> only logs).
\<close>

record Store =
  db :: "LocalizationEntry list"
  ls_db :: "LocalizationEntry list option"
  ls_version :: "string option"
  save_ok :: bool

datatype error = InvalidField string | InvalidLocale string | UniqueViolation

definition saveDatabaseToLocalStorage :: "Store \<Rightarrow> Store" where
  "saveDatabaseToLocalStorage st =
     (if save_ok st then st\<lparr>ls_db := Some (db st)\<rparr> else st)"

definition validFields :: "string list" where
  "validFields = [''key'', ''en'', ''es'', ''fr'', ''de'', ''ja'', ''zh'']"

definition validLocales :: "string list" where
  "validLocales = [''en'', ''es'', ''fr'', ''de'', ''ja'', ''zh'']"

text \<open>\<open>SET ${field} = ?\<close> for a validated field name.\<close>

definition set_field :: "string \<Rightarrow> string \<Rightarrow> LocalizationEntry \<Rightarrow> LocalizationEntry" where
  "set_field f v r =
     (if f = ''key'' then r\<lparr>key := v\<rparr>
      else if f = ''en'' then r\<lparr>en := v\<rparr>
      else if f = ''es'' then r\<lparr>es := v\<rparr>
      else if f = ''fr'' then r\<lparr>fr := v\<rparr>
      else if f = ''de'' then r\<lparr>de := v\<rparr>
      else if f = ''ja'' then r\<lparr>ja := v\<rparr>
      else if f = ''zh'' then r\<lparr>zh := v\<rparr>
      else r)"

text \<open>\<open>SELECT ${locale}\<close> for a validated locale name.\<close>

definition get_locale :: "string \<Rightarrow> LocalizationEntry \<Rightarrow> string" where
  "get_locale l r =
     (if l = ''en'' then en r
      else if l = ''es'' then es r
      else if l = ''fr'' then fr r
      else if l = ''de'' then de r
      else if l = ''ja'' then ja r
      else zh r)"

text \<open>
  \<open>updateLocalization(id, field, value)\<close>: the field name is checked first; the
  \<open>UPDATE ... WHERE id = ?\<close> then rewrites the matching row and stamps \<open>updated_at\<close>.
  Column \<open>key\<close> is \<open>UNIQUE\<close>: moving a row onto a key that another row holds makes
  \<open>db.run\<close> throw, before the save.
\<close>

definition updateLocalization ::
  "string \<Rightarrow> string \<Rightarrow> string \<Rightarrow> string \<Rightarrow> Store \<Rightarrow> error + Store" where
  "updateLocalization now i field v st =
     (if field \<notin> set validFields then Inl (InvalidField field)
      else if field = ''key'' \<and> (\<exists>r \<in> set (db st). rid r = i)
                \<and> (\<exists>r \<in> set (db st). rid r \<noteq> i \<and> key r = v)
           then Inl UniqueViolation
      else Inr (saveDatabaseToLocalStorage
             (st\<lparr>db := map (\<lambda>r. if rid r = i
                                  then (set_field field v r)\<lparr>updated_at := now\<rparr>
                                  else r) (db st)\<rparr>)))"

text \<open>The \<open>SET\<close> list that \<open>updateLocalizationByKey\<close> assembles: one assignment
  per value that is not \<open>undefined\<close>.\<close>

definition apply_updates :: "Translations \<Rightarrow> LocalizationEntry \<Rightarrow> LocalizationEntry" where
  "apply_updates t r =
     (let r1 = (case es_opt t of None \<Rightarrow> r | Some v \<Rightarrow> r\<lparr>es := v\<rparr>);
          r2 = (case fr_opt t of None \<Rightarrow> r1 | Some v \<Rightarrow> r1\<lparr>fr := v\<rparr>);
          r3 = (case de_opt t of None \<Rightarrow> r2 | Some v \<Rightarrow> r2\<lparr>de := v\<rparr>);
          r4 = (case ja_opt t of None \<Rightarrow> r3 | Some v \<Rightarrow> r3\<lparr>ja := v\<rparr>);
          r5 = (case zh_opt t of None \<Rightarrow> r4 | Some v \<Rightarrow> r4\<lparr>zh := v\<rparr>)
      in r5)"

definition no_updates :: "Translations \<Rightarrow> bool" where
  "no_updates t \<longleftrightarrow>
     es_opt t = None \<and> fr_opt t = None \<and> de_opt t = None \<and> ja_opt t = None \<and> zh_opt t = None"

text \<open>
  \<open>updateLocalizationByKey(key, translations)\<close>: with an empty \<open>SET\<close> list it returns
  at once; otherwise the \<open>UPDATE ... WHERE key = ?\<close> rewrites the rows of that key, stamps
  \<open>updated_at\<close>, and the database is saved. No constraint covers the locale columns, so
  the statement cannot fail.
\<close>

definition updateLocalizationByKey :: "string \<Rightarrow> string \<Rightarrow> Translations \<Rightarrow> Store \<Rightarrow> Store" where
  "updateLocalizationByKey now k t st =
     (if no_updates t then st
      else saveDatabaseToLocalStorage
             (st\<lparr>db := map (\<lambda>r. if key r = k
                                  then (apply_updates t r)\<lparr>updated_at := now\<rparr>
                                  else r) (db st)\<rparr>))"

text \<open>
  \<open>createLocalization(entry)\<close>: \<open>INSERT OR IGNORE\<close> skips the row when it would break
  a constraint of the table (\<open>id\<close> is the primary key, \<open>key\<close> is \<open>UNIQUE\<close>); otherwise
  the row is appended with both timestamps at their default \<open>datetime('now')\<close>. The
  database is saved in either case.
\<close>

definition new_row :: "string \<Rightarrow> EntryInput \<Rightarrow> LocalizationEntry" where
  "new_row now e =
     \<lparr>rid = rid e, key = key e, en = en e, es = es e, fr = fr e, de = de e, ja = ja e,
      zh = zh e, created_at = now, updated_at = now\<rparr>"

definition createLocalization :: "string \<Rightarrow> EntryInput \<Rightarrow> Store \<Rightarrow> Store" where
  "createLocalization now e st =
     saveDatabaseToLocalStorage
       (if (\<exists>r \<in> set (db st). rid r = rid e \<or> key r = key e) then st
        else st\<lparr>db := db st @ [new_row now e]\<rparr>)"

text \<open>\<open>deleteLocalization(id)\<close>: \<open>DELETE ... WHERE id = ?\<close>, then save.\<close>

definition deleteLocalization :: "string \<Rightarrow> Store \<Rightarrow> Store" where
  "deleteLocalization i st =
     saveDatabaseToLocalStorage (st\<lparr>db := filter (\<lambda>r. rid r \<noteq> i) (db st)\<rparr>)"

text \<open>
  \<open>getAllLocalizations()\<close>: \<open>SELECT * ... ORDER BY key\<close>, the rows in the order of
  their keys (strings compared character by character).
\<close>

definition getAllLocalizations :: "Store \<Rightarrow> LocalizationEntry list" where
  "getAllLocalizations st = sort_key key (db st)"

text \<open>
  \<open>getTranslations(locale)\<close>: the locale is checked against the fixed list, then the
  rows are folded into an object from key to value (a later row of the same key would
  overwrite an earlier one). The function only reads; the store is returned beside the
  result so that this can be stated.
\<close>

definition getTranslations ::
  "string \<Rightarrow> Store \<Rightarrow> (error + (string \<Rightarrow> string option)) \<times> Store" where
  "getTranslations locale st =
     (if locale \<notin> set validLocales then (Inl (InvalidLocale locale), st)
      else (Inr (fold (\<lambda>r acc. acc(key r \<mapsto> get_locale locale r)) (db st) Map.empty), st))"

text \<open>A small store used to run the operations on concrete data: two rows, the
  snapshot in step with the table, a version marker already set.\<close>

definition demo_rows :: "LocalizationEntry list" where
  "demo_rows =
     [\<lparr>rid = ''2'', key = ''button.submit'', en = ''Submit'', es = ''Enviar'',
       fr = ''Soumettre'', de = ''Absenden'', ja = ''Soshin'', zh = ''Tijiao'',
       created_at = ''t0'', updated_at = ''t0''\<rparr>,
      \<lparr>rid = ''4'', key = ''navigation.home'', en = ''Home'', es = ''Inicio'',
       fr = ''Accueil'', de = ''Startseite'', ja = ''Homu'', zh = ''Shouye'',
       created_at = ''t0'', updated_at = ''t0''\<rparr>]"

definition demo_store :: Store where
  "demo_store = \<lparr>db = demo_rows, ls_db = Some demo_rows, ls_version = Some ''1700000000000'',
                  save_ok = True\<rparr>"

definition demo_entry :: EntryInput where
  "demo_entry = \<lparr>rid = ''77'', key = ''button.submit'', en = ''Send'', es = [], fr = [],
                  de = [], ja = [], zh = []\<rparr>"

definition only_es :: "string \<Rightarrow> Translations" where
  "only_es v = \<lparr>es_opt = Some v, fr_opt = None, de_opt = None, ja_opt = None, zh_opt = None\<rparr>"

section \<open>JavaScript values and property reads\<close>

text \<open>
  The code reads plain objects with \<open>obj[name]\<close>: the tables \<open>__TX\<close> and \<open>__EN\<close> of the
  resolver, \<open>aliasToKey\<close>, and the objects of the parsed translation response. Such a
  read gives the object's own property of that name or, when it has none, the member of
  \<open>Object.prototype\<close> of that name, and \<open>undefined\<close> only when there is neither.

  A value is \<open>undefined\<close>; a string; a member of \<open>Object.prototype\<close>, given by its name
  (a function, or for \<open>__proto__\<close> the prototype object itself: never a string, always
  truthy); or another value that is not a string (\<open>null\<close>, a boolean, a number, an array
  or an object of parsed JSON). Of the last kind the model keeps what the code depends on:
  whether the value is truthy, and the text the column holds once sql.js has bound the
  value to a parameter of a statement, \<open>None\<close> when sql.js refuses to bind it.
\<close>

datatype jsvalue = Undefined | Str string | Builtin string | NonString bool "string option"

definition truthy :: "jsvalue \<Rightarrow> bool" where
  "truthy v =
     (case v of Undefined \<Rightarrow> False | Str s \<Rightarrow> s \<noteq> [] | Builtin n \<Rightarrow> True | NonString t b \<Rightarrow> t)"

text \<open>The property names of \<open>Object.prototype\<close>.\<close>

definition object_prototype :: "string list" where
  "object_prototype =
     [''constructor'', ''hasOwnProperty'', ''isPrototypeOf'', ''propertyIsEnumerable'',
      ''toLocaleString'', ''toString'', ''valueOf'', ''__defineGetter__'', ''__defineSetter__'',
      ''__lookupGetter__'', ''__lookupSetter__'', ''__proto__'']"

text \<open>\<open>obj[name]\<close> for a plain object with the own properties \<open>obj\<close>.\<close>

definition get_prop :: "(string \<Rightarrow> jsvalue option) \<Rightarrow> string \<Rightarrow> jsvalue" where
  "get_prop obj name =
     (case obj name of
        Some v \<Rightarrow> v
      | None \<Rightarrow> if name \<in> set object_prototype then Builtin name else Undefined)"

text \<open>The own properties of an object all of whose own properties are strings.\<close>

definition strings :: "(string \<Rightarrow> string option) \<Rightarrow> string \<Rightarrow> jsvalue option" where
  "strings m = (\<lambda>name. map_option Str (m name))"

text \<open>
  \<open>bindValue\<close> of sql.js, which \<open>db.run(sql, values)\<close> applies to each value before the
  statement runs: a string is bound as it is; a function or a plain object makes it throw.
\<close>

definition bindValue :: "jsvalue \<Rightarrow> string option" where
  "bindValue v =
     (case v of Str s \<Rightarrow> Some s | NonString t b \<Rightarrow> b | Undefined \<Rightarrow> None | Builtin n \<Rightarrow> None)"

section \<open>Merging the batch translation (ensureLocalizationsForCode, step 3)\<close>

text \<open>
  \<open>data.translations\<close> of the parsed response, which the code has as a value of type
  \<open>any\<close>: an object from locale code to the object that holds, per English text, what
  the provider returned. A locale maps to the own properties of its object, and to
  \<open>None\<close> when the response has no such property or has \<open>null\<close> there (the per-locale
  values are objects, as the route \<open>/api/translate\<close> sends them). The items of
  \<open>newKeys\<close> are pairs of key and English text.

  \<open>trans_value\<close> is the read \<open>trans.es?.[item.en]\<close>. \<open>item_updates\<close> is the object
  \<open>updates\<close>: the property of a locale is set when the value read is truthy.
  \<open>merge_item\<close> is the body of the loop: with no property set nothing is done; otherwise
  \<open>updateLocalizationByKey\<close> hands the values to \<open>db.run\<close>, which binds them before it
  runs the statement, so that a value sql.js refuses makes the call throw with the table
  as it was (\<open>None\<close>). The loop stands in one \<open>try\<close> block: a throw abandons the
  remaining items and the write of the version marker.
\<close>

type_synonym provider_tables = "string \<Rightarrow> (string \<Rightarrow> jsvalue option) option"

definition trans_value :: "provider_tables \<Rightarrow> string \<Rightarrow> string \<Rightarrow> jsvalue" where
  "trans_value tbl l t = (case tbl l of None \<Rightarrow> Undefined | Some obj \<Rightarrow> get_prop obj t)"

definition item_updates :: "provider_tables \<Rightarrow> string \<Rightarrow> string \<Rightarrow> jsvalue option" where
  "item_updates tbl t l = (if truthy (trans_value tbl l t) then Some (trans_value tbl l t) else None)"

definition merge_locales :: "string list" where
  "merge_locales = [''es'', ''fr'', ''de'', ''ja'', ''zh'']"

definition refused :: "jsvalue option \<Rightarrow> bool" where
  "refused u = (case u of None \<Rightarrow> False | Some v \<Rightarrow> bindValue v = None)"

definition bound_column :: "jsvalue option \<Rightarrow> string option" where
  "bound_column u = (case u of None \<Rightarrow> None | Some v \<Rightarrow> bindValue v)"

definition item_columns :: "provider_tables \<Rightarrow> string \<Rightarrow> Translations" where
  "item_columns tbl t =
     \<lparr>es_opt = bound_column (item_updates tbl t ''es''),
      fr_opt = bound_column (item_updates tbl t ''fr''),
      de_opt = bound_column (item_updates tbl t ''de''),
      ja_opt = bound_column (item_updates tbl t ''ja''),
      zh_opt = bound_column (item_updates tbl t ''zh'')\<rparr>"

definition merge_item :: "string \<Rightarrow> provider_tables \<Rightarrow> string \<times> string \<Rightarrow> Store \<Rightarrow> Store option" where
  "merge_item now tbl item st =
     (if list_all (\<lambda>l. item_updates tbl (snd item) l = None) merge_locales then Some st
      else if list_ex (\<lambda>l. refused (item_updates tbl (snd item) l)) merge_locales then None
      else Some (updateLocalizationByKey now (fst item) (item_columns tbl (snd item)) st))"

datatype merge_result = Completed Store | Abandoned Store

fun merge_items ::
  "string \<Rightarrow> provider_tables \<Rightarrow> (string \<times> string) list \<Rightarrow> Store \<Rightarrow> merge_result" where
  "merge_items now tbl [] st = Completed st"
| "merge_items now tbl (item # items) st =
     (case merge_item now tbl item st of
        None \<Rightarrow> Abandoned st
      | Some st' \<Rightarrow> merge_items now tbl items st')"


text \<open>What one completed call of \<open>updateLocalizationByKey\<close> from the loop does to one row.\<close>

definition row_step :: "string \<Rightarrow> provider_tables \<Rightarrow> string \<times> string \<Rightarrow> LocalizationEntry \<Rightarrow> LocalizationEntry" where
  "row_step now tbl item r =
     (if key r = fst item \<and> \<not> no_updates (item_columns tbl (snd item))
      then (apply_updates (item_columns tbl (snd item)) r)\<lparr>updated_at := now\<rparr> else r)"




section \<open>Strings, character classes and the key pattern\<close>

text \<open>
  Source texts, keys and translations are strings, modelled as lists of characters. The
  case conversions and the character classes below are those of JavaScript on ASCII; the
  functions that use them are applied to texts drawn from ASCII classes by the patterns
  that select them.
\<close>

definition lower_chars :: string where "lower_chars = ''abcdefghijklmnopqrstuvwxyz''"
definition upper_chars :: string where "upper_chars = ''ABCDEFGHIJKLMNOPQRSTUVWXYZ''"
definition digit_chars :: string where "digit_chars = ''0123456789''"

text \<open>The classes \<open>[A-Za-z]\<close>, \<open>[A-Za-z0-9_]\<close>, \<open>[a-z0-9]\<close> and \<open>\\s\<close>.\<close>

definition isLetter :: "char \<Rightarrow> bool" where
  "isLetter c \<longleftrightarrow> c \<in> set lower_chars \<or> c \<in> set upper_chars"

definition isWordChar :: "char \<Rightarrow> bool" where
  "isWordChar c \<longleftrightarrow> isLetter c \<or> c \<in> set digit_chars \<or> c = CHR ''_''"

definition isLowerAlnum :: "char \<Rightarrow> bool" where
  "isLowerAlnum c \<longleftrightarrow> c \<in> set lower_chars \<or> c \<in> set digit_chars"

definition isSpace :: "char \<Rightarrow> bool" where
  "isSpace c \<longleftrightarrow> c \<in> set [CHR 0x09, CHR 0x0A, CHR 0x0B, CHR 0x0C, CHR 0x0D, CHR '' '', CHR 0xA0]"

definition toUpperChar :: "char \<Rightarrow> char" where
  "toUpperChar c = (case map_of (zip lower_chars upper_chars) c of Some u \<Rightarrow> u | None \<Rightarrow> c)"

definition toLowerChar :: "char \<Rightarrow> char" where
  "toLowerChar c = (case map_of (zip upper_chars lower_chars) c of Some u \<Rightarrow> u | None \<Rightarrow> c)"

definition toLowerCase :: "string \<Rightarrow> string" where
  "toLowerCase s = map toLowerChar s"

definition toUpperCase :: "string \<Rightarrow> string" where
  "toUpperCase s = map toUpperChar s"

text \<open>\<open>s.split(d)\<close> for a one-character separator; the result is never empty.\<close>

fun split_on :: "char \<Rightarrow> string \<Rightarrow> string list" where
  "split_on d [] = [[]]"
| "split_on d (c # cs) =
     (if c = d then [] # split_on d cs
      else (case split_on d cs of [] \<Rightarrow> [[c]] | w # ws \<Rightarrow> (c # w) # ws))"

text \<open>
  The key pattern \<open>[A-Za-z]+(?:\\.[A-Za-z0-9_]+)+\<close>, matched at the head of a string.
  \<open>dot_groups\<close> consumes the groups \<open>\\.[A-Za-z0-9_]+\<close> greedily and returns what is
  left. A letter is never a dot and a word character is never a dot or a quote, so the
  greedy match is the only one the backtracking matcher can complete. \<open>key_token\<close>
  returns the matched key and the rest; \<open>key_shape\<close> is the anchored test
  \<open>/^[A-Za-z]+(\\.[A-Za-z0-9_]+)+$/\<close>.
\<close>

function dot_groups :: "string \<Rightarrow> string" where
  "dot_groups s =
     (case s of
        c # r \<Rightarrow> if c = CHR ''.'' \<and> takeWhile isWordChar r \<noteq> []
                 then dot_groups (dropWhile isWordChar r) else s
      | [] \<Rightarrow> s)"
  by pat_completeness auto
termination
  by (relation "measure length") (auto simp: length_dropWhile_le less_Suc_eq_le)

declare dot_groups.simps [simp del]

definition key_token :: "string \<Rightarrow> (string \<times> string) option" where
  "key_token s =
     (let r = dropWhile isLetter s; r' = dot_groups r
      in if takeWhile isLetter s = [] \<or> length r' = length r then None
         else Some (take (length s - length r') s, r'))"

definition key_shape :: "string \<Rightarrow> bool" where
  "key_shape k = (case key_token k of Some (_, r) \<Rightarrow> r = [] | None \<Rightarrow> False)"

section \<open>The runtime resolver (the preamble of ComponentPreview)\<close>

text \<open>\<open>.replace(/_/g, ' ')\<close>.\<close>

definition replace_underscores :: "string \<Rightarrow> string" where
  "replace_underscores s = map (\<lambda>c. if c = CHR ''_'' then CHR '' '' else c) s"

text \<open>
  The resolver is not compiled with the component: \<open>rewriteWithKeys\<close> writes its text
  into the preamble, a template literal. In a template literal a backslash before a dot
  is an escape for the plain dot and is dropped. So the pattern, which the source writes
  with one backslash before the dot of its group, reaches the running code as
  \<open>/^[A-Za-z]+(.[A-Za-z0-9_]+)+$/\<close>, whose dot matches any character but a line
  terminator. (The patterns of the fifth pass, built from template literals as well, are
  written with two backslashes before the dot and keep their escaped dot.)

  \<open>label_pattern\<close> is the test of the running pattern, read from left to right with
  every choice the matcher has: \<open>shape_letters\<close> takes a letter and goes on with more
  letters or with the groups; \<open>shape_groups\<close> takes the one character of a group, any
  character but a line terminator, and goes on with the word characters of the group;
  \<open>shape_words\<close> takes a word character and then is at the end of the text, or goes on
  with more word characters, or with another group. Strings are lists of 8-bit characters
  here, of which the line terminators are line feed and carriage return.
\<close>

definition isLineTerminator :: "char \<Rightarrow> bool" where
  "isLineTerminator c \<longleftrightarrow> c = CHR 0x0A \<or> c = CHR 0x0D"

fun shape_letters :: "string \<Rightarrow> bool"
  and shape_groups :: "string \<Rightarrow> bool"
  and shape_words :: "string \<Rightarrow> bool" where
  "shape_letters [] = False"
| "shape_letters (x # r) = (isLetter x \<and> (if shape_letters r then True else shape_groups r))"
| "shape_groups [] = False"
| "shape_groups (c # r) = (\<not> isLineTerminator c \<and> shape_words r)"
| "shape_words [] = False"
| "shape_words (x # r) =
     (isWordChar x \<and> (if r = [] then True else if shape_words r then True else shape_groups r))"

definition label_pattern :: "string \<Rightarrow> bool" where
  "label_pattern k = shape_letters k"

text \<open>
  The tables \<open>__TX\<close> and \<open>__EN\<close> are object literals written from the JSON text of what
  \<open>getTranslations\<close> returned, from key to string. In an object literal the property
  name \<open>__proto__\<close> with a string value defines no property.
\<close>

definition object_literal :: "(string \<Rightarrow> string option) \<Rightarrow> string \<Rightarrow> jsvalue option" where
  "object_literal m = (strings m)(''__proto__'' := None)"

text \<open>
  \<open>__i18n\<close>, with the contents of the tables \<open>__TX\<close> and \<open>__EN\<close> as arguments. It returns
  what it read from a table, whatever that is, or a string made from the key.
\<close>

definition i18n :: "(string \<Rightarrow> string option) \<Rightarrow> (string \<Rightarrow> string option) \<Rightarrow> string \<Rightarrow> jsvalue" where
  "i18n TX EN k =
     (let v = get_prop (object_literal TX) k in
      if v \<noteq> Undefined \<and> v \<noteq> Str [] then v
      else let e = get_prop (object_literal EN) k in
        if e \<noteq> Undefined \<and> e \<noteq> Str [] then e
        else if label_pattern k then
          (let lst = last (split_on CHR ''.'' k) in
           if lst \<noteq> [] then Str (replace_underscores (toUpperCase (take 1 lst) @ drop 1 lst))
           else Str k)
        else Str k)"

text \<open>
  The label as the specification words it: underscores of the last segment replaced by
  spaces, then the first letter capitalised.
\<close>

definition capitalize :: "string \<Rightarrow> string" where
  "capitalize s = (case s of [] \<Rightarrow> [] | c # cs \<Rightarrow> toUpperChar c # cs)"

definition label_spec :: "string \<Rightarrow> string" where
  "label_spec k = capitalize (replace_underscores (last (split_on CHR ''.'' k)))"

definition demo_tx :: "string \<Rightarrow> string option" where
  "demo_tx = [''button.submit'' \<mapsto> ''Enviar'', ''nav.about'' \<mapsto> []]"

definition demo_en :: "string \<Rightarrow> string option" where
  "demo_en = [''button.submit'' \<mapsto> ''Submit'', ''nav.about'' \<mapsto> ''About'']"

section \<open>Resolving candidate texts to keys (ensureLocalizationsForCode, step 1)\<close>

text \<open>\<open>s.trim()\<close>.\<close>

definition trim :: "string \<Rightarrow> string" where
  "trim s = rev (dropWhile isSpace (rev (dropWhile isSpace s)))"

text \<open>
  \<open>generateKeyFromText\<close>: \<open>.replace(/[^a-z0-9]+/g, ".")\<close> turns each maximal run of
  characters outside \<open>[a-z0-9]\<close> into one dot; \<open>.replace(/^\\.+|\\.+$/g, "")\<close> removes
  the dots at the head and at the end; \<open>slice(0, 40)\<close> truncates.
\<close>

function replace_runs :: "string \<Rightarrow> string" where
  "replace_runs [] = []"
| "replace_runs (c # cs) =
     (if isLowerAlnum c then c # replace_runs cs
      else CHR ''.'' # replace_runs (dropWhile (\<lambda>x. \<not> isLowerAlnum x) cs))"
  by pat_completeness auto
termination
  by (relation "measure length") (auto simp: length_dropWhile_le less_Suc_eq_le)

definition trim_dots :: "string \<Rightarrow> string" where
  "trim_dots s = rev (dropWhile (\<lambda>c. c = CHR ''.'') (rev (dropWhile (\<lambda>c. c = CHR ''.'') s)))"

definition generateKeyFromText :: "string \<Rightarrow> string" where
  "generateKeyFromText text =
     (let base = trim_dots (replace_runs (toLowerCase text))
      in ''auto.'' @ take 40 base)"

text \<open>
  The decimal numeral of \<open>i\<close> in the template \<open>`${key}.${i}`\<close>. Different numbers have
  different numerals, so only finitely many suffixed keys are in any list of keys: this
  is what makes the suffix loop terminate.
\<close>

function show_nat :: "nat \<Rightarrow> string" where
  "show_nat n =
     (if n < 10 then [digit_chars ! n] else show_nat (n div 10) @ [digit_chars ! (n mod 10)])"
  by pat_completeness auto
termination
  by (relation "measure id") auto

declare show_nat.simps [simp del]

lemma show_nat_nonempty: "show_nat n \<noteq> []"
  by (subst show_nat.simps) simp

lemma digit_inj: "a < 10 \<Longrightarrow> b < 10 \<Longrightarrow> digit_chars ! a = digit_chars ! b \<Longrightarrow> a = b"
proof -
  assume a: "a < 10" and b: "b < 10" and e: "digit_chars ! a = digit_chars ! b"
  have d: "distinct digit_chars" by (simp add: digit_chars_def)
  have l: "length digit_chars = 10" by (simp add: digit_chars_def)
  from d a b e l show "a = b" by (simp add: nth_eq_iff_index_eq)
qed

lemma show_nat_inj: "show_nat a = show_nat b \<Longrightarrow> a = b"
proof (induction a arbitrary: b rule: show_nat.induct)
  case (1 n)
  show ?case
  proof (cases "n < 10")
    case True
    then have sn: "show_nat n = [digit_chars ! n]" by (subst show_nat.simps) simp
    show ?thesis
    proof (cases "b < 10")
      case True
      then have "show_nat b = [digit_chars ! b]" by (subst show_nat.simps) simp
      with sn "1.prems" \<open>n < 10\<close> True show ?thesis by (auto dest: digit_inj)
    next
      case False
      then have "show_nat b = show_nat (b div 10) @ [digit_chars ! (b mod 10)]"
        by (subst show_nat.simps) simp
      with sn "1.prems" show_nat_nonempty [of "b div 10"] show ?thesis by auto
    qed
  next
    case False
    then have sn: "show_nat n = show_nat (n div 10) @ [digit_chars ! (n mod 10)]"
      by (subst show_nat.simps) simp
    show ?thesis
    proof (cases "b < 10")
      case True
      then have "show_nat b = [digit_chars ! b]" by (subst show_nat.simps) simp
      with sn "1.prems" show_nat_nonempty [of "n div 10"] show ?thesis by auto
    next
      case bf: False
      then have sb: "show_nat b = show_nat (b div 10) @ [digit_chars ! (b mod 10)]"
        by (subst show_nat.simps) simp
      from sn sb "1.prems" have e1: "show_nat (n div 10) = show_nat (b div 10)"
        and e2: "digit_chars ! (n mod 10) = digit_chars ! (b mod 10)" by auto
      from "1.IH" [OF False e1] have "n div 10 = b div 10" .
      moreover from e2 have "n mod 10 = b mod 10" by (auto intro: digit_inj)
      ultimately show ?thesis by (metis div_mult_mod_eq)
    qed
  qed
qed

lemma finite_suffixes: "finite {j. k @ ''.'' @ show_nat j \<in> set keys}"
proof -
  have "inj (\<lambda>j. k @ ''.'' @ show_nat j)"
    by (rule injI) (auto dest: show_nat_inj)
  then have "finite ((\<lambda>j. k @ ''.'' @ show_nat j) -` set keys)"
    by (intro finite_vimageI) simp_all
  then show ?thesis by (simp add: vimage_def)
qed

text \<open>
  The loop \<open>while (existing.find((e) => e.key === finalKey)) { i += 1; finalKey =
  `${key}.${i}` }\<close>, entered with \<open>i = 1\<close> and \<open>finalKey = key\<close>; \<open>keys\<close> are the keys
  of \<open>existing\<close>.
\<close>

function suffix_loop :: "string list \<Rightarrow> string \<Rightarrow> nat \<Rightarrow> string \<Rightarrow> string" where
  "suffix_loop keys k i finalKey =
     (if finalKey \<in> set keys then suffix_loop keys k (i + 1) (k @ ''.'' @ show_nat (i + 1))
      else finalKey)"
  by pat_completeness auto
termination
proof (relation "measure (\<lambda>(keys, k, i, finalKey).
         card {j. i < j \<and> k @ ''.'' @ show_nat j \<in> set keys}
         + (if finalKey \<in> set keys then 1 else 0))")
  show "wf (measure (\<lambda>(keys, k, i, finalKey).
         card {j. i < j \<and> k @ ''.'' @ show_nat j \<in> set keys}
         + (if finalKey \<in> set keys then 1 else 0)))" by simp
next
  fix keys :: "string list" and k :: string and i :: nat and finalKey :: string
  assume "finalKey \<in> set keys"
  let ?P = "\<lambda>j. k @ ''.'' @ show_nat j \<in> set keys"
  have fin: "finite {j. i + 1 < j \<and> ?P j}"
    using finite_suffixes [of k keys] by (rule rev_finite_subset) auto
  have "{j. i < j \<and> ?P j} = (if ?P (i + 1) then {i + 1} else {}) \<union> {j. i + 1 < j \<and> ?P j}"
    (is "?A = ?B")
  proof (rule set_eqI)
    fix j show "j \<in> ?A \<longleftrightarrow> j \<in> ?B" by (cases "j = i + 1") auto
  qed
  then have "card {j. i < j \<and> ?P j} = (if ?P (i + 1) then 1 else 0) + card {j. i + 1 < j \<and> ?P j}"
    using fin by simp
  with \<open>finalKey \<in> set keys\<close>
  show "((keys, k, i + 1, k @ ''.'' @ show_nat (i + 1)), (keys, k, i, finalKey))
        \<in> measure (\<lambda>(keys, k, i, finalKey).
             card {j. i < j \<and> k @ ''.'' @ show_nat j \<in> set keys}
             + (if finalKey \<in> set keys then 1 else 0))"
    by simp
qed

declare suffix_loop.simps [simp del]

text \<open>
  The body of the loop over the candidates. The state is what the loop reads and writes:
  the local list \<open>existing\<close>, the map \<open>enToKey\<close>, the queue \<open>newKeys\<close> and the store.
  \<open>enLowerToKey\<close> is built once before the loop and not written afterwards. \<open>uuid\<close>
  stands for \<open>crypto.randomUUID()\<close>; the entry pushed onto \<open>existing\<close> has an empty id
  and no timestamps.

  \<open>aliasToKey\<close> is a plain object with four own properties, read with
  \<open>aliasToKey[lower]\<close>; \<open>enToKey\<close> and \<open>enLowerToKey\<close> are \<open>Map\<close>s, read with \<open>has\<close>
  and \<open>get\<close>, which see only what was put into them. The mapped key is whatever these
  reads gave, and counts when it is truthy; \<open>enToKey.set(text, mappedKey)\<close> then stores
  it as it is.
\<close>

definition aliasToKey :: "string \<Rightarrow> jsvalue option" where
  "aliasToKey =
     strings [''home'' \<mapsto> ''navigation.home'', ''about'' \<mapsto> ''navigation.about'',
              ''services'' \<mapsto> ''navigation.services'', ''contact'' \<mapsto> ''navigation.contact'']"

record Ensure =
  existing :: "LocalizationEntry list"
  enToKey :: "string \<Rightarrow> jsvalue option"
  newKeys :: "(string \<times> string) list"
  store :: Store

definition blank_entry :: "string \<Rightarrow> string \<Rightarrow> string \<Rightarrow> EntryInput" where
  "blank_entry i k text =
     \<lparr>rid = i, key = k, en = text, es = [], fr = [], de = [], ja = [], zh = []\<rparr>"

definition ensure_candidate ::
  "string \<Rightarrow> (nat \<Rightarrow> string) \<Rightarrow> (string \<Rightarrow> string option) \<Rightarrow> string \<Rightarrow> Ensure \<Rightarrow> Ensure" where
  "ensure_candidate now uuid enLowerToKey text s =
     (let lower = toLowerCase text;
          m1 = get_prop aliasToKey lower;
          m2 = (if \<not> truthy m1 \<and> enToKey s text \<noteq> None then the (enToKey s text) else m1);
          m3 = (if \<not> truthy m2 \<and> enLowerToKey lower \<noteq> None
                then Str (the (enLowerToKey lower)) else m2)
      in if truthy m3
         then (if enToKey s text = None then s\<lparr>enToKey := (enToKey s)(text \<mapsto> m3)\<rparr> else s)
         else (let k = generateKeyFromText text;
                   finalKey = suffix_loop (map key (existing s)) k 1 k
               in s\<lparr>newKeys := newKeys s @ [(finalKey, text)],
                    store := createLocalization now
                               (blank_entry (uuid (length (newKeys s))) finalKey text) (store s),
                    existing := existing s @ [new_row [] (blank_entry [] finalKey text)],
                    enToKey := (enToKey s)(text \<mapsto> Str finalKey)\<rparr>))"

definition ensure_start :: "Store \<Rightarrow> Ensure" where
  "ensure_start st =
     \<lparr>existing = getAllLocalizations st,
      enToKey = fold (\<lambda>e m. m(trim (en e) \<mapsto> Str (key e))) (getAllLocalizations st) Map.empty,
      newKeys = [], store = st\<rparr>"

definition ensure_candidates ::
  "string \<Rightarrow> (nat \<Rightarrow> string) \<Rightarrow> string list \<Rightarrow> Store \<Rightarrow> Ensure" where
  "ensure_candidates now uuid candidates st =
     fold (ensure_candidate now uuid
             (fold (\<lambda>e m. m(toLowerCase (trim (en e)) \<mapsto> key e))
                (getAllLocalizations st) Map.empty))
          candidates (ensure_start st)"

section \<open>The source rewriter (rewriteWithKeys in ComponentPreview)\<close>

text \<open>The two quote characters, \<open>'\<close> and \<open>"\<close>.\<close>

definition sq :: char where "sq = CHR 0x27"
definition dq :: char where "dq = CHR 0x22"

text \<open>
  \<open>out.replace(re, ...)\<close> for a pattern with the \<open>g\<close> flag: the text is scanned from
  left to right; where the pattern matches, the replacement is emitted and the scan goes
  on behind the match, otherwise one character is copied. The matcher \<open>m\<close> is given the
  text from the current position and returns the length of the match and the captured
  key; none of the patterns here matches the empty string, and none looks behind the
  current position. The replacement \<open>f\<close> is given the matched text, the captured key, the
  source before the match (\<open>src.slice(0, offset)\<close>) and the source behind it.
\<close>

function replace_all ::
  "(string \<Rightarrow> (nat \<times> string) option) \<Rightarrow> (string \<Rightarrow> string \<Rightarrow> string \<Rightarrow> string \<Rightarrow> string)
     \<Rightarrow> string \<Rightarrow> string \<Rightarrow> string" where
  "replace_all m f bef [] = []"
| "replace_all m f bef (c # cs) =
     (case m (c # cs) of
        None \<Rightarrow> c # replace_all m f (bef @ [c]) cs
      | Some (n, g) \<Rightarrow>
          if n = 0 then c # replace_all m f (bef @ [c]) cs
          else f (take n (c # cs)) g bef (drop n (c # cs))
               @ replace_all m f (bef @ take n (c # cs)) (drop n (c # cs)))"
  by pat_completeness auto
termination
  by (relation "measure (\<lambda>(m, f, bef, s). length s)") auto

text \<open>
  The pieces of the patterns: one given character, one quote of either kind, \<open>\\s*\<close>,
  a literal text, and their sequence. Each returns the rest of the input. \<open>\\s*\<close> is
  always followed by a character that is not white space, so taking all the white space
  is the only way the pattern can go on.
\<close>

definition p_char :: "char \<Rightarrow> string \<Rightarrow> string option" where
  "p_char c s = (case s of [] \<Rightarrow> None | x # r \<Rightarrow> if x = c then Some r else None)"

definition p_quote :: "string \<Rightarrow> string option" where
  "p_quote s = (case s of [] \<Rightarrow> None | x # r \<Rightarrow> if x = sq \<or> x = dq then Some r else None)"

definition p_ws :: "string \<Rightarrow> string option" where
  "p_ws s = Some (dropWhile isSpace s)"

definition p_lit :: "string \<Rightarrow> string \<Rightarrow> string option" where
  "p_lit t s = (if take (length t) s = t then Some (drop (length t) s) else None)"

fun seq :: "(string \<Rightarrow> string option) list \<Rightarrow> string \<Rightarrow> string option" where
  "seq [] s = Some s"
| "seq (p # ps) s = (case p s of None \<Rightarrow> None | Some r \<Rightarrow> seq ps r)"

text \<open>
  The patterns \<open>>\\s*'text'\\s*<\<close> and \<open>\\{\\s*'text'\\s*\\}\<close> (and the same with double
  quotes), built from the text after \<open>escapeForRegex\<close>, which makes every character of
  the text match itself.
\<close>

definition wrapped_literal :: "char \<Rightarrow> char \<Rightarrow> char \<Rightarrow> string \<Rightarrow> string \<Rightarrow> (nat \<times> string) option" where
  "wrapped_literal c0 q c1 text s =
     (case seq [p_char c0, p_ws, p_char q, p_lit text, p_char q, p_ws, p_char c1] s of
        None \<Rightarrow> None
      | Some r \<Rightarrow> Some (length s - length r, []))"

text \<open>
  A replacement given as a string is expanded as \<open>String.prototype.replace\<close> does:
  \<open>$$\<close>, \<open>$&\<close>, \<open>$`\<close> and \<open>$'\<close> stand for a dollar sign, the match, the source before
  it and the source behind it. The patterns have no capture groups, so \<open>$1\<close> and the
  like stay as they are.
\<close>

fun expand :: "string \<Rightarrow> string \<Rightarrow> string \<Rightarrow> string \<Rightarrow> string" where
  "expand (a # b # r) m bf af =
     (if a = CHR ''$'' \<and> b = CHR ''$'' then CHR ''$'' # expand r m bf af
      else if a = CHR ''$'' \<and> b = CHR ''&'' then m @ expand r m bf af
      else if a = CHR ''$'' \<and> b = CHR 0x60 then bf @ expand r m bf af
      else if a = CHR ''$'' \<and> b = sq then af @ expand r m bf af
      else a # expand (b # r) m bf af)"
| "expand r m bf af = r"

definition call_text :: "string \<Rightarrow> string" where
  "call_text k = ''__i18n('' @ [sq] @ k @ [sq] @ '')''"

definition replace_literal ::
  "(string \<Rightarrow> (nat \<times> string) option) \<Rightarrow> string \<Rightarrow> string \<Rightarrow> string" where
  "replace_literal m template out = replace_all m (\<lambda>mt g bf af. expand template mt bf af) [] out"

text \<open>The body of the loop over \<open>textToKey.entries()\<close>.\<close>

definition rewrite_text :: "string \<times> string \<Rightarrow> string \<Rightarrow> string" where
  "rewrite_text tk out =
     (let text = fst tk; k = snd tk; lower = toLowerCase text
      in if text = [] then out
         else if lower = ''react'' \<or> lower = ''use client'' then out
         else (let o1 = replace_literal (wrapped_literal CHR ''>'' sq CHR ''<'' text)
                          (''> {'' @ call_text k @ ''} <'') out;
                   o2 = replace_literal (wrapped_literal CHR ''>'' dq CHR ''<'' text)
                          (''> {'' @ call_text k @ ''} <'') o1;
                   o3 = replace_literal (wrapped_literal CHR ''{'' sq CHR ''}'' text)
                          (''{'' @ call_text k @ ''}'') o2;
                   o4 = replace_literal (wrapped_literal CHR ''{'' dq CHR ''}'' text)
                          (''{'' @ call_text k @ ''}'') o3
               in o4))"

text \<open>
  \<open>new Map(entries.map(e => [e.en.trim(), e.key]))\<close> as the list of its entries in
  iteration order: a text keeps the place of its first insertion and takes the key of
  its last. \<open>entries\<close> is the result of \<open>getAllLocalizations\<close>, the rows in key order.
\<close>

fun map_set :: "'a \<Rightarrow> 'b \<Rightarrow> ('a \<times> 'b) list \<Rightarrow> ('a \<times> 'b) list" where
  "map_set a b [] = [(a, b)]"
| "map_set a b (p # ps) = (if fst p = a then (a, b) # ps else p # map_set a b ps)"

definition textToKey :: "LocalizationEntry list \<Rightarrow> (string \<times> string) list" where
  "textToKey entries = fold (\<lambda>e m. map_set (trim (en e)) (key e) m) entries []"

definition keyAliases :: "string \<Rightarrow> string option" where
  "keyAliases =
     [''social.home'' \<mapsto> ''navigation.home'', ''social.about'' \<mapsto> ''navigation.about'',
      ''social.services'' \<mapsto> ''navigation.services'',
      ''social.contact'' \<mapsto> ''navigation.contact'']"

definition resolvedKey :: "string \<Rightarrow> string" where
  "resolvedKey k = (case keyAliases k of Some a \<Rightarrow> a | None \<Rightarrow> k)"

text \<open>
  The pattern \<open>(['"])(([A-Za-z]+)(?:\\.[A-Za-z0-9_]+)+)\\1\<close> and its replacement function.
  \<open>inside_call\<close> is the first guard, on the 12 characters before the match:
  \<open>/t\\(\\s*$/\<close> or \<open>/__i18n\\(\\s*$/\<close>; \<open>object_key\<close> is the second, on the 5 characters
  behind it: \<open>/^\\s*:/\<close>.
\<close>

definition keyLike :: "string \<Rightarrow> (nat \<times> string) option" where
  "keyLike s =
     (case s of [] \<Rightarrow> None
      | q # r \<Rightarrow>
          if q = sq \<or> q = dq
          then (case key_token r of None \<Rightarrow> None
                | Some (k, r') \<Rightarrow>
                    (case p_char q r' of None \<Rightarrow> None | Some r'' \<Rightarrow> Some (length s - length r'', k)))
          else None)"

definition rstrip :: "string \<Rightarrow> string" where
  "rstrip s = rev (dropWhile isSpace (rev s))"

definition ends_with :: "string \<Rightarrow> string \<Rightarrow> bool" where
  "ends_with p s \<longleftrightarrow> length p \<le> length s \<and> drop (length s - length p) s = p"

definition starts_with :: "string \<Rightarrow> string \<Rightarrow> bool" where
  "starts_with p s \<longleftrightarrow> take (length p) s = p"

definition last_chars :: "nat \<Rightarrow> string \<Rightarrow> string" where
  "last_chars n s = drop (length s - n) s"

definition inside_call :: "string \<Rightarrow> bool" where
  "inside_call bf \<longleftrightarrow>
     (let bef = last_chars 12 bf
      in ends_with ''t('' (rstrip bef) \<or> ends_with ''__i18n('' (rstrip bef))"

definition object_key :: "string \<Rightarrow> bool" where
  "object_key af \<longleftrightarrow> (let aft = take 5 af in starts_with '':'' (dropWhile isSpace aft))"

definition keyLike_replace :: "string list \<Rightarrow> string \<Rightarrow> string \<Rightarrow> string \<Rightarrow> string \<Rightarrow> string" where
  "keyLike_replace allKeys m k bf af =
     (if inside_call bf then m
      else if object_key af then m
      else if k \<in> set allKeys \<or> resolvedKey k \<in> set allKeys
           then ''{'' @ call_text (resolvedKey k) @ ''}'' else m)"

text \<open>The pattern \<open>t\\(\\s*['"](([A-Za-z]+)(?:\\.[A-Za-z0-9_]+)+)['"]\\s*\\)\<close> and its
  replacement function.\<close>

definition tCall :: "string \<Rightarrow> (nat \<times> string) option" where
  "tCall s =
     (case seq [p_lit ''t('', p_ws, p_quote] s of None \<Rightarrow> None
      | Some r \<Rightarrow>
          (case key_token r of None \<Rightarrow> None
           | Some (k, r') \<Rightarrow>
               (case seq [p_quote, p_ws, p_char CHR '')''] r' of None \<Rightarrow> None
                | Some r'' \<Rightarrow> Some (length s - length r'', k))))"

definition tCall_replace :: "string \<Rightarrow> string \<Rightarrow> string \<Rightarrow> string \<Rightarrow> string" where
  "tCall_replace m k bf af =
     (let bef = last_chars 10 bf; aft = take 10 af
      in if ends_with ''{'' bef \<or> starts_with ''}'' aft \<or> CHR ''='' \<in> set bef
         then call_text k else ''{'' @ call_text k @ ''}'')"

text \<open>The patterns \<open>${f}\\s*:\\s*'(key)'\<close> and \<open>${f}\\s*:\\s*"(key)"\<close> for the listed
  field names.\<close>

definition fields :: "string list" where
  "fields = [''label'', ''title'', ''description'', ''buttonText'', ''text'', ''placeholder'', ''name'']"

definition propKey :: "string \<Rightarrow> char \<Rightarrow> string \<Rightarrow> (nat \<times> string) option" where
  "propKey f q s =
     (case seq [p_lit f, p_ws, p_char CHR '':'', p_ws, p_char q] s of None \<Rightarrow> None
      | Some r \<Rightarrow>
          (case key_token r of None \<Rightarrow> None
           | Some (k, r') \<Rightarrow>
               (case p_char q r' of None \<Rightarrow> None | Some r'' \<Rightarrow> Some (length s - length r'', k))))"

definition propKey_replace :: "string list \<Rightarrow> string \<Rightarrow> string \<Rightarrow> string \<Rightarrow> string \<Rightarrow> string \<Rightarrow> string" where
  "propKey_replace allKeys f m k bf af =
     (if k \<in> set allKeys \<or> resolvedKey k \<in> set allKeys
      then f @ '': '' @ call_text (resolvedKey k) else m)"

definition rewrite_field :: "string list \<Rightarrow> string \<Rightarrow> string \<Rightarrow> string" where
  "rewrite_field allKeys f out =
     replace_all (propKey f dq) (propKey_replace allKeys f) []
       (replace_all (propKey f sq) (propKey_replace allKeys f) [] out)"

text \<open>The third pass, scanning \<open>rest\<close> with \<open>bf\<close> already behind it; the passes in
  their order.\<close>

definition keyLike_from :: "string list \<Rightarrow> string \<Rightarrow> string \<Rightarrow> string" where
  "keyLike_from allKeys bf rest = replace_all keyLike (keyLike_replace allKeys) bf rest"

definition rewriteWithKeys :: "LocalizationEntry list \<Rightarrow> string \<Rightarrow> string" where
  "rewriteWithKeys entries code =
     (let allKeys = map key entries;
          o1 = fold rewrite_text (textToKey entries) code;
          o2 = keyLike_from allKeys [] o1;
          o3 = replace_all tCall tCall_replace [] o2;
          o4 = fold (rewrite_field allKeys) fields o3
      in o4)"

text \<open>A one-line source holding the quoted literal \<open>k\<close>.\<close>

definition key_src :: "string \<Rightarrow> string" where
  "key_src k = ''x = '' @ [sq] @ k @ [sq] @ '';''"

text \<open>
  The expression-wrapped literal \<open>{'T'}\<close> or \<open>{"T"}\<close>, with \<open>q\<close> the quote character,
  and the brace-wrapped call \<open>{__i18n('k')}\<close> that the rewriter puts in its place.
  \<open>plain_text\<close> says that a text holds no quote character, no opening brace and no
  closing angle bracket.
\<close>

definition braced :: "char \<Rightarrow> string \<Rightarrow> string" where
  "braced q T = CHR ''{'' # q # T @ [q, CHR ''}'']"

definition braced_call :: "string \<Rightarrow> string" where
  "braced_call k = CHR ''{'' # call_text k @ ''}''"

definition plain_text :: "string \<Rightarrow> bool" where
  "plain_text t \<longleftrightarrow> sq \<notin> set t \<and> dq \<notin> set t \<and> CHR ''{'' \<notin> set t \<and> CHR ''>'' \<notin> set t"

text \<open>
  What the proofs use of a pattern: a match is not empty, lies within the text, holds an
  opening brace at most as its first character, and is a match whatever text follows it.
\<close>

definition local_match :: "(string \<Rightarrow> (nat \<times> string) option) \<Rightarrow> bool" where
  "local_match m \<longleftrightarrow>
     (\<forall>s n g. m s = Some (n, g) \<longrightarrow>
        0 < n \<and> n \<le> length s \<and> CHR ''{'' \<notin> set (tl (take n s))
        \<and> (\<forall>r. m (take n s @ r) = Some (n, g)))"

text \<open>
  The head of a component source as \<open>ComponentPreview\<close> hands it to the rewriter (the
  import line is put in front when the source lacks it), and the opening tag of a button
  with a quoted attribute.
\<close>

definition import_line :: string where
  "import_line = ''import React from '' @ [sq] @ ''react'' @ [sq] @ '';'' @ [CHR 0x0A]"

definition button_open :: string where
  "button_open = ''<button className='' @ [dq] @ ''btn primary'' @ [dq] @ ''>''"

text \<open>Two rows with the same English text, as \<open>navigation.home\<close> and \<open>social.home\<close>
  of the seed data, in key order.\<close>

definition dup_rows :: "LocalizationEntry list" where
  "dup_rows =
     [\<lparr>rid = ''4'', key = ''navigation.home'', en = ''Home'', es = ''Inicio'',
       fr = ''Accueil'', de = ''Startseite'', ja = ''Homu'', zh = ''Shouye'',
       created_at = ''t0'', updated_at = ''t0''\<rparr>,
      \<lparr>rid = ''s1'', key = ''social.home'', en = ''Home'', es = ''Inicio'',
       fr = ''Accueil'', de = ''Startseite'', ja = ''Homu'', zh = ''Shouye'',
       created_at = ''t0'', updated_at = ''t0''\<rparr>]"

text \<open>A store with a row whose English text is \<open>React\<close>.\<close>

definition react_rows :: "LocalizationEntry list" where
  "react_rows =
     [\<lparr>rid = ''r1'', key = ''tech.react'', en = ''React'', es = ''React'',
       fr = ''React'', de = ''React'', ja = ''React'', zh = ''React'',
       created_at = ''t0'', updated_at = ''t0''\<rparr>]"

section \<open>Properties of the store\<close>

subsection \<open>Creation is idempotent\<close>

text \<open>
  Claim C5. When the key of the entry is already in the table, \<open>createLocalization\<close>
  completes (it has no error outcome) and leaves the table exactly as it was; and for any
  entry whatever, creating it a second time leaves the table as the first creation left it.
\<close>

theorem create_idempotent:
  "(key e \<in> key ` set (db st) \<longrightarrow> db (createLocalization now e st) = db st)
   \<and> db (createLocalization now' e (createLocalization now e st))
       = db (createLocalization now e st)"
  by (auto simp: createLocalization_def saveDatabaseToLocalStorage_def new_row_def)

theorem create_idempotent_witness:
  "key demo_entry \<in> key ` set (db demo_store)
   \<and> db (createLocalization ''t1'' demo_entry demo_store) = demo_rows"
proof -
  have h: "key demo_entry \<in> key ` set (db demo_store)"
    by (simp add: demo_entry_def demo_store_def demo_rows_def)
  from create_idempotent [of demo_entry demo_store "''t1''" "''t2''"] h
  show ?thesis by (simp add: demo_store_def)
qed

subsection \<open>The partial update by key\<close>

lemma apply_updates_frame:
  "rid (apply_updates t r) = rid r \<and> key (apply_updates t r) = key r
   \<and> en (apply_updates t r) = en r \<and> created_at (apply_updates t r) = created_at r
   \<and> updated_at (apply_updates t r) = updated_at r"
  by (simp add: apply_updates_def Let_def split: option.splits)

lemma apply_updates_es:
  "es (apply_updates t r) = (case es_opt t of None \<Rightarrow> es r | Some v \<Rightarrow> v)"
  by (simp add: apply_updates_def Let_def split: option.splits)

lemma apply_updates_fr:
  "fr (apply_updates t r) = (case fr_opt t of None \<Rightarrow> fr r | Some v \<Rightarrow> v)"
  by (simp add: apply_updates_def Let_def split: option.splits)

lemma apply_updates_de:
  "de (apply_updates t r) = (case de_opt t of None \<Rightarrow> de r | Some v \<Rightarrow> v)"
  by (simp add: apply_updates_def Let_def split: option.splits)

lemma apply_updates_ja:
  "ja (apply_updates t r) = (case ja_opt t of None \<Rightarrow> ja r | Some v \<Rightarrow> v)"
  by (simp add: apply_updates_def Let_def split: option.splits)

lemma apply_updates_zh:
  "zh (apply_updates t r) = (case zh_opt t of None \<Rightarrow> zh r | Some v \<Rightarrow> v)"
  by (simp add: apply_updates_def Let_def split: option.splits)

lemmas apply_updates_simps =
  apply_updates_frame apply_updates_es apply_updates_fr apply_updates_de apply_updates_ja
  apply_updates_zh

lemma updateByKey_db:
  "db (updateLocalizationByKey now k t st) =
     (if no_updates t then db st
      else map (\<lambda>r. if key r = k then (apply_updates t r)\<lparr>updated_at := now\<rparr> else r) (db st))"
  by (simp add: updateLocalizationByKey_def saveDatabaseToLocalStorage_def)

text \<open>
  Claim C6. After \<open>updateLocalizationByKey\<close> the table has the same rows in the same
  places, and in every row the identifier, the key, the English text and the creation time
  are what they were; a locale column changes only if the update supplied a value for it,
  and a row of another key does not change at all. With only an \<open>es\<close> value supplied,
  \<open>fr\<close>, \<open>de\<close>, \<open>ja\<close>, \<open>zh\<close>, \<open>en\<close> and \<open>key\<close> are therefore untouched.
\<close>

theorem updateByKey_only_provided:
  "length (db (updateLocalizationByKey now k t st)) = length (db st)
   \<and> (\<forall>i < length (db st).
         let r = db st ! i; r' = db (updateLocalizationByKey now k t st) ! i
         in rid r' = rid r \<and> key r' = key r \<and> en r' = en r \<and> created_at r' = created_at r
            \<and> (es_opt t = None \<longrightarrow> es r' = es r)
            \<and> (fr_opt t = None \<longrightarrow> fr r' = fr r)
            \<and> (de_opt t = None \<longrightarrow> de r' = de r)
            \<and> (ja_opt t = None \<longrightarrow> ja r' = ja r)
            \<and> (zh_opt t = None \<longrightarrow> zh r' = zh r)
            \<and> (key r \<noteq> k \<longrightarrow> r' = r))"
  by (simp add: updateByKey_db Let_def apply_updates_simps)

theorem updateByKey_only_provided_witness:
  "(let r' = db (updateLocalizationByKey ''t1'' ''button.submit'' (only_es ''Mandar'') demo_store) ! 0
    in es r' = ''Mandar'' \<and> fr r' = ''Soumettre'' \<and> de r' = ''Absenden'' \<and> ja r' = ''Soshin''
       \<and> zh r' = ''Tijiao'' \<and> en r' = ''Submit'' \<and> key r' = ''button.submit'')
   \<and> db (updateLocalizationByKey ''t1'' ''button.submit'' (only_es ''Mandar'') demo_store) ! 1
       = demo_rows ! 1"
proof -
  have len: "(0::nat) < length (db demo_store)" "(1::nat) < length (db demo_store)"
    by (simp_all add: demo_store_def demo_rows_def)
  have none: "fr_opt (only_es ''Mandar'') = None" "de_opt (only_es ''Mandar'') = None"
    "ja_opt (only_es ''Mandar'') = None" "zh_opt (only_es ''Mandar'') = None"
    by (simp_all add: only_es_def)
  have es0: "es (db (updateLocalizationByKey ''t1'' ''button.submit'' (only_es ''Mandar'')
                 demo_store) ! 0) = ''Mandar''"
    by (simp add: updateByKey_db no_updates_def only_es_def demo_store_def demo_rows_def
        apply_updates_simps)
  note fr = updateByKey_only_provided
      [of "''t1''" "''button.submit''" "only_es ''Mandar''" demo_store]
  from fr len none have
    "let r = db demo_store ! 0;
         r' = db (updateLocalizationByKey ''t1'' ''button.submit'' (only_es ''Mandar'') demo_store) ! 0
     in key r' = key r \<and> en r' = en r \<and> fr r' = fr r \<and> de r' = de r \<and> ja r' = ja r \<and> zh r' = zh r"
    by (simp add: Let_def)
  moreover from fr len have
    "key (db demo_store ! 1) \<noteq> ''button.submit'' \<longrightarrow>
       db (updateLocalizationByKey ''t1'' ''button.submit'' (only_es ''Mandar'') demo_store) ! 1
         = db demo_store ! 1"
    by (simp add: Let_def)
  ultimately show ?thesis using es0
    by (simp add: Let_def demo_store_def demo_rows_def)
qed

text \<open>
  Claim C10. With no locale value supplied at all, \<open>updateLocalizationByKey\<close> gives back
  the state it was given: no row changes (not even \<open>updated_at\<close>) and the snapshot in
  \<open>localStorage\<close> is not written.
\<close>

theorem updateByKey_nothing_supplied:
  "updateLocalizationByKey now k
     \<lparr>es_opt = None, fr_opt = None, de_opt = None, ja_opt = None, zh_opt = None\<rparr> st = st"
  by (simp add: updateLocalizationByKey_def no_updates_def)

subsection \<open>Locale validation\<close>

text \<open>
  Claim C8. \<open>getTranslations\<close> fails with \<open>Invalid locale\<close> for every locale code outside
  en, es, fr, de, ja, zh, and gives back the store unchanged; for each of the six codes it
  returns a table.
\<close>

theorem getTranslations_locale_check:
  "(locale \<notin> {''en'', ''es'', ''fr'', ''de'', ''ja'', ''zh''} \<longrightarrow>
      getTranslations locale st = (Inl (InvalidLocale locale), st))
   \<and> (locale \<in> {''en'', ''es'', ''fr'', ''de'', ''ja'', ''zh''} \<longrightarrow>
      (\<exists>m. getTranslations locale st = (Inr m, st)))"
  by (simp add: getTranslations_def validLocales_def)

theorem getTranslations_locale_check_witness:
  "''it'' \<notin> {''en'', ''es'', ''fr'', ''de'', ''ja'', ''zh''}
   \<and> getTranslations ''it'' demo_store = (Inl (InvalidLocale ''it''), demo_store)
   \<and> ''fr'' \<in> {''en'', ''es'', ''fr'', ''de'', ''ja'', ''zh''}
   \<and> (\<exists>m. getTranslations ''fr'' demo_store = (Inr m, demo_store))"
  using getTranslations_locale_check [of "''it''" demo_store]
    getTranslations_locale_check [of "''fr''" demo_store]
  by simp

subsection \<open>The version marker\<close>

text \<open>
  Claim C4, as stated, fails: deleting row 2 of the demo store changes the table and
  re-writes the snapshot, and the version marker in \<open>localStorage\<close> is the one that was
  there before.
\<close>

theorem delete_keeps_version_counterexample:
  "db (deleteLocalization ''2'' demo_store) \<noteq> db demo_store
   \<and> ls_db (deleteLocalization ''2'' demo_store) = Some (db (deleteLocalization ''2'' demo_store))
   \<and> ls_version (deleteLocalization ''2'' demo_store) = ls_version demo_store"
  by (simp add: deleteLocalization_def saveDatabaseToLocalStorage_def demo_store_def
      demo_rows_def)

text \<open>
  Claim C4, amended. None of the four mutating store operations writes the version marker;
  each of them, when it completes and the write to \<open>localStorage\<close> goes through, leaves
  the persisted snapshot equal to the whole table (the update by key only if it was given
  at least one value).
\<close>

theorem store_ops_snapshot_not_version:
  "ls_version (createLocalization now e st) = ls_version st
   \<and> ls_version (deleteLocalization i st) = ls_version st
   \<and> ls_version (updateLocalizationByKey now k t st) = ls_version st
   \<and> (\<forall>st'. updateLocalization now i f v st = Inr st' \<longrightarrow> ls_version st' = ls_version st)
   \<and> (save_ok st \<longrightarrow>
        ls_db (createLocalization now e st) = Some (db (createLocalization now e st))
        \<and> ls_db (deleteLocalization i st) = Some (db (deleteLocalization i st))
        \<and> (\<not> no_updates t \<longrightarrow>
             ls_db (updateLocalizationByKey now k t st)
               = Some (db (updateLocalizationByKey now k t st)))
        \<and> (\<forall>st'. updateLocalization now i f v st = Inr st' \<longrightarrow> ls_db st' = Some (db st')))"
  by (auto simp: createLocalization_def deleteLocalization_def updateLocalizationByKey_def
      updateLocalization_def saveDatabaseToLocalStorage_def split: if_splits)

theorem store_ops_snapshot_not_version_witness:
  "save_ok demo_store \<and> \<not> no_updates (only_es ''Mandar'')
   \<and> (\<exists>st'. updateLocalization ''t1'' ''2'' ''fr'' ''Envoyer'' demo_store = Inr st'
         \<and> ls_version st' = Some ''1700000000000'' \<and> ls_db st' = Some (db st'))
   \<and> ls_version (updateLocalizationByKey ''t1'' ''button.submit'' (only_es ''Mandar'') demo_store)
       = Some ''1700000000000''
   \<and> ls_db (updateLocalizationByKey ''t1'' ''button.submit'' (only_es ''Mandar'') demo_store)
       = Some (db (updateLocalizationByKey ''t1'' ''button.submit'' (only_es ''Mandar'') demo_store))"
proof -
  have ok: "save_ok demo_store" by (simp add: demo_store_def)
  have upd: "\<not> no_updates (only_es ''Mandar'')" by (simp add: no_updates_def only_es_def)
  have ex: "\<exists>st'. updateLocalization ''t1'' ''2'' ''fr'' ''Envoyer'' demo_store = Inr st'"
    by (simp add: updateLocalization_def validFields_def)
  have v: "ls_version demo_store = Some ''1700000000000''" by (simp add: demo_store_def)
  from store_ops_snapshot_not_version
    [of "''t1''" demo_entry demo_store "''2''" "''button.submit''" "only_es ''Mandar''"
        "''fr''" "''Envoyer''"] ok upd ex v
  show ?thesis by auto
qed

section \<open>Properties of the merge\<close>

lemma row_step_no_updates:
  "no_updates (item_columns tbl (snd item)) \<Longrightarrow> row_step now tbl item = (\<lambda>r. r)"
  by (simp add: row_step_def fun_eq_iff)

lemma no_item_updates:
  "list_all (\<lambda>l. item_updates tbl t l = None) merge_locales \<Longrightarrow> no_updates (item_columns tbl t)"
  by (simp add: merge_locales_def no_updates_def item_columns_def bound_column_def)

lemma merge_item_db:
  assumes "merge_item now tbl item st = Some st'"
  shows "db st' = map (row_step now tbl item) (db st)"
proof (cases "list_all (\<lambda>l. item_updates tbl (snd item) l = None) merge_locales")
  case True
  then have "st' = st" using assms by (simp add: merge_item_def)
  with True show ?thesis by (simp add: row_step_no_updates no_item_updates)
next
  case False
  then have "st' = updateLocalizationByKey now (fst item) (item_columns tbl (snd item)) st"
    using assms by (simp add: merge_item_def split: if_splits)
  then show ?thesis
    by (cases "no_updates (item_columns tbl (snd item))")
       (simp_all add: updateByKey_db row_step_no_updates, simp add: row_step_def)
qed

lemma merge_items_db:
  "merge_items now tbl items st = Completed st' \<Longrightarrow>
   db st' = map (fold (row_step now tbl) items) (db st)"
proof (induction items arbitrary: st)
  case Nil
  then show ?case by simp
next
  case (Cons item items)
  from Cons.prems obtain st1 where 1: "merge_item now tbl item st = Some st1"
    and 2: "merge_items now tbl items st1 = Completed st'"
    by (auto split: option.splits)
  from Cons.IH [OF 2] merge_item_db [OF 1] show ?case by simp
qed

text \<open>The loop runs to its end when sql.js refuses none of the values it is handed.\<close>

lemma merge_items_completed:
  "\<forall>item \<in> set items. \<not> list_ex (\<lambda>l. refused (item_updates tbl (snd item) l)) merge_locales \<Longrightarrow>
   \<exists>st'. merge_items now tbl items st = Completed st'"
proof (induction items arbitrary: st)
  case Nil
  show ?case by simp
next
  case (Cons item items)
  from Cons.prems have "merge_item now tbl item st \<noteq> None"
    by (simp add: merge_item_def)
  then obtain st1 where "merge_item now tbl item st = Some st1" by blast
  with Cons show ?case by simp
qed

lemma row_step_key: "key (row_step now tbl item r) = key r"
  by (simp add: row_step_def apply_updates_simps)

lemma fold_row_step_key: "key (fold (row_step now tbl) items r) = key r"
  by (induction items arbitrary: r) (simp_all add: row_step_key)

lemma fold_row_step_other:
  "key r \<notin> fst ` set items \<Longrightarrow> fold (row_step now tbl) items r = r"
  by (induction items arbitrary: r) (auto simp: row_step_def)

lemma row_step_eq:
  "row_step now tbl (key r, t) r = (apply_updates (item_columns tbl t) r)\<lparr>updated_at := now\<rparr>
   \<or> (row_step now tbl (key r, t) r = r \<and> no_updates (item_columns tbl t))"
  by (simp add: row_step_def)

lemma locale_apply_updates:
  "l \<in> {''es'', ''fr'', ''de'', ''ja'', ''zh''} \<Longrightarrow>
   get_locale l ((apply_updates (item_columns tbl t) r)\<lparr>updated_at := now\<rparr>)
     = (case bound_column (item_updates tbl t l) of Some v \<Rightarrow> v | None \<Rightarrow> get_locale l r)"
  by (elim insertE emptyE; simp add: get_locale_def apply_updates_simps item_columns_def
      split: option.splits)

lemma locale_no_updates:
  "l \<in> {''es'', ''fr'', ''de'', ''ja'', ''zh''} \<Longrightarrow> no_updates (item_columns tbl t) \<Longrightarrow>
   bound_column (item_updates tbl t l) = None"
  by (elim insertE emptyE; simp add: no_updates_def item_columns_def)

lemma row_step_locale:
  assumes "l \<in> {''es'', ''fr'', ''de'', ''ja'', ''zh''}"
  shows "get_locale l (row_step now tbl (key r, t) r)
     = (case bound_column (item_updates tbl t l) of Some v \<Rightarrow> v | None \<Rightarrow> get_locale l r)"
  using row_step_eq [of now tbl r t]
proof
  assume "row_step now tbl (key r, t) r
            = (apply_updates (item_columns tbl t) r)\<lparr>updated_at := now\<rparr>"
  then show ?thesis using locale_apply_updates [OF assms] by simp
next
  assume "row_step now tbl (key r, t) r = r \<and> no_updates (item_columns tbl t)"
  then show ?thesis using locale_no_updates [OF assms] by simp
qed

lemma fold_row_step_locale:
  "distinct (map fst items) \<Longrightarrow> (key r, t) \<in> set items \<Longrightarrow>
   l \<in> {''es'', ''fr'', ''de'', ''ja'', ''zh''} \<Longrightarrow>
   get_locale l (fold (row_step now tbl) items r)
     = (case bound_column (item_updates tbl t l) of Some v \<Rightarrow> v | None \<Rightarrow> get_locale l r)"
proof (induction items arbitrary: r)
  case Nil
  then show ?case by simp
next
  case (Cons x xs)
  show ?case
  proof (cases "x = (key r, t)")
    case True
    have "key (row_step now tbl x r) \<notin> fst ` set xs"
      using Cons.prems(1) True by (simp add: row_step_key)
    then have "fold (row_step now tbl) xs (row_step now tbl x r) = row_step now tbl x r"
      by (rule fold_row_step_other)
    then show ?thesis using True Cons.prems(3) row_step_locale [of l now tbl r t] by simp
  next
    case False
    then have mem: "(key r, t) \<in> set xs" using Cons.prems(2) by simp
    then have "fst x \<noteq> key r" using Cons.prems(1) by force
    then have same: "row_step now tbl x r = r" by (simp add: row_step_def)
    from Cons.IH [of r] Cons.prems mem same show ?thesis by simp
  qed
qed

text \<open>
  What the loop does when it runs to its end (the keys minted in one run are pairwise
  different): for every item, every row of its key and each of the locales es, fr, de, ja,
  zh, the column holds the provider's value when that is a non-empty string, and holds
  what it held before when the read gave nothing truthy.
\<close>

lemma merge_completed_columns:
  assumes "merge_items now tbl items st = Completed st'"
    and "distinct (map fst items)" and "(k, t) \<in> set items"
    and "i < length (db st)" and "key (db st ! i) = k"
    and "l \<in> {''es'', ''fr'', ''de'', ''ja'', ''zh''}"
  shows "key (db st' ! i) = k
         \<and> (\<forall>v. trans_value tbl l t = Str v \<and> v \<noteq> [] \<longrightarrow> get_locale l (db st' ! i) = v)
         \<and> (\<not> truthy (trans_value tbl l t) \<longrightarrow> get_locale l (db st' ! i) = get_locale l (db st ! i))"
proof -
  let ?r = "db st ! i"
  have r': "db st' ! i = fold (row_step now tbl) items ?r"
    using assms(4) by (simp add: merge_items_db [OF assms(1)])
  have "get_locale l (fold (row_step now tbl) items ?r)
          = (case bound_column (item_updates tbl t l) of Some v \<Rightarrow> v | None \<Rightarrow> get_locale l ?r)"
    using fold_row_step_locale [of items ?r t l now tbl] assms(2,3,5,6) by simp
  then show ?thesis
    using assms(5)
    by (auto simp: r' fold_row_step_key item_updates_def bound_column_def bindValue_def
        truthy_def)
qed


section \<open>Properties of the runtime resolver\<close>

lemma split_on_nonempty: "split_on d s \<noteq> []"
  by (induction s) (auto split: list.splits)

lemma split_on_no_delim: "d \<notin> set s \<Longrightarrow> split_on d s = [s]"
  by (induction s) auto

lemma split_on_append: "split_on d (xs @ d # ys) = split_on d xs @ split_on d ys"
proof (induction xs)
  case Nil
  show ?case by simp
next
  case (Cons c xs)
  obtain w ws where "split_on d xs = w # ws"
    using split_on_nonempty [of d xs] by (cases "split_on d xs") auto
  with Cons show ?case by simp
qed

lemma last_split_on_append: "last (split_on d (xs @ d # ys)) = last (split_on d ys)"
  by (simp add: split_on_append split_on_nonempty)

lemma isWordChar_not_dot: "\<not> isWordChar CHR ''.''"
  by (simp add: isWordChar_def isLetter_def lower_chars_def upper_chars_def digit_chars_def)

lemma shape_last:
  "(shape_letters s \<longrightarrow> s \<noteq> [] \<and> isWordChar (last s))
   \<and> (shape_groups s \<longrightarrow> s \<noteq> [] \<and> isWordChar (last s))
   \<and> (shape_words s \<longrightarrow> s \<noteq> [] \<and> isWordChar (last s))"
  by (induction s) (auto split: if_splits)

lemma label_pattern_last: "label_pattern k \<Longrightarrow> k \<noteq> [] \<and> isWordChar (last k)"
  using shape_last [of k] by (simp add: label_pattern_def)

lemma last_segment_nonempty:
  assumes "s \<noteq> []" and "last s \<noteq> d"
  shows "last (split_on d s) \<noteq> []"
proof (cases "d \<in> set s")
  case False
  then show ?thesis using assms(1) by (simp add: split_on_no_delim)
next
  case True
  then obtain xs ys where s: "s = xs @ d # ys" and ys: "d \<notin> set ys"
    by (auto dest: split_list_last)
  from assms s have "ys \<noteq> []" by auto
  then show ?thesis using s ys by (simp add: last_split_on_append split_on_no_delim)
qed

lemma label_pattern_last_segment:
  assumes "label_pattern k"
  shows "last (split_on CHR ''.'' k) \<noteq> []"
proof -
  from label_pattern_last [OF assms] isWordChar_not_dot have "k \<noteq> []" "last k \<noteq> CHR ''.''"
    by auto
  then show ?thesis by (rule last_segment_nonempty)
qed

lemma toUpperChar_range: "toUpperChar c = c \<or> toUpperChar c \<in> set upper_chars"
  by (auto simp: toUpperChar_def split: option.splits dest!: map_of_SomeD set_zip_rightD)

lemma toUpperChar_underscore: "toUpperChar c = CHR ''_'' \<longleftrightarrow> c = CHR ''_''"
proof
  assume "toUpperChar c = CHR ''_''"
  with toUpperChar_range [of c] show "c = CHR ''_''" by (auto simp: upper_chars_def)
next
  assume "c = CHR ''_''"
  then show "toUpperChar c = CHR ''_''"
    by (simp add: toUpperChar_def lower_chars_def upper_chars_def)
qed

lemma toUpperChar_space: "toUpperChar CHR '' '' = CHR '' ''"
  by (simp add: toUpperChar_def lower_chars_def upper_chars_def)

lemma label_code_eq_spec:
  "lst \<noteq> [] \<Longrightarrow>
   replace_underscores (toUpperCase (take 1 lst) @ drop 1 lst) = capitalize (replace_underscores lst)"
  by (cases lst)
     (auto simp: replace_underscores_def toUpperCase_def capitalize_def toUpperChar_underscore
        toUpperChar_space)

lemma get_prop_literal:
  "get_prop (object_literal T) k = Undefined
   \<or> (\<exists>s. get_prop (object_literal T) k = Str s)
   \<or> get_prop (object_literal T) k = Builtin k"
  by (cases "T k") (auto simp: get_prop_def object_literal_def strings_def)

lemma truthy_literal:
  "truthy (get_prop (object_literal T) k)
   \<longleftrightarrow> get_prop (object_literal T) k \<noteq> Undefined \<and> get_prop (object_literal T) k \<noteq> Str []"
  using get_prop_literal [of T k] by (auto simp: truthy_def)

text \<open>
  What the resolver returns, for every key: the value read from the current-locale table
  if it is truthy; else the value read from the English table if it is truthy; else, when
  the running pattern matches the key, the label made from the text behind the key's last
  dot (the whole key when it has no dot); else the key itself. It never returns
  \<open>undefined\<close>. A value read from a table is a string of the table or, for a key that
  names a member of \<open>Object.prototype\<close> and is not in the table, that member.
\<close>

lemma i18n_chain:
  "i18n TX EN k =
     (if truthy (get_prop (object_literal TX) k) then get_prop (object_literal TX) k
      else if truthy (get_prop (object_literal EN) k) then get_prop (object_literal EN) k
      else if label_pattern k then Str (label_spec k)
      else Str k)"
proof -
  have "label_pattern k \<Longrightarrow>
        (let lst = last (split_on CHR ''.'' k)
         in if lst \<noteq> [] then Str (replace_underscores (toUpperCase (take 1 lst) @ drop 1 lst))
            else Str k)
        = Str (label_spec k)"
    using label_pattern_last_segment [of k] label_code_eq_spec [of "last (split_on CHR ''.'' k)"]
    by (simp add: label_spec_def Let_def)
  then show ?thesis
    by (simp add: i18n_def Let_def truthy_literal)
qed

lemma i18n_defined: "i18n TX EN k \<noteq> Undefined"
  by (auto simp: i18n_chain truthy_def)

text \<open>
  Claim C1 fails on the code at keys without a dot. The key \<open>hello_world\<close> has not the
  dotted shape \<open>word(.word)+\<close>, and with tables that do not hold it the claim has the
  resolver return the key itself; the running pattern matches it (its dot takes the
  underscore) and the resolver returns the label \<open>Hello world\<close>. A key with a dot gets
  its label either way. For the key \<open>constructor\<close> the resolver returns what the read of
  the table gave, the inherited member, which is not a string.
\<close>

theorem i18n_label_without_dot:
  "\<not> key_shape ''hello_world''
   \<and> demo_tx ''hello_world'' = None \<and> demo_en ''hello_world'' = None
   \<and> i18n demo_tx demo_en ''hello_world'' = Str ''Hello world''
   \<and> key_shape ''profile.first_name''
   \<and> i18n demo_tx demo_en ''profile.first_name'' = Str ''First name''
   \<and> i18n demo_tx demo_en ''button.submit'' = Str ''Enviar''
   \<and> i18n demo_tx demo_en ''nav.about'' = Str ''About''
   \<and> i18n demo_tx demo_en ''constructor'' = Builtin ''constructor''"
  by code_simp

section \<open>Properties of key minting\<close>

lemma suffix_loop_spec:
  "suffix_loop keys k i fk \<notin> set keys
   \<and> (fk \<notin> set keys \<longrightarrow> suffix_loop keys k i fk = fk)
   \<and> (fk \<in> set keys \<longrightarrow>
        (\<exists>n > i. suffix_loop keys k i fk = k @ ''.'' @ show_nat n
                \<and> (\<forall>j. i < j \<and> j < n \<longrightarrow> k @ ''.'' @ show_nat j \<in> set keys)))"
proof (induction keys k i fk rule: suffix_loop.induct)
  case (1 keys k i fk)
  show ?case
  proof (cases "fk \<in> set keys")
    case False
    then show ?thesis by (subst suffix_loop.simps, subst suffix_loop.simps) simp
  next
    case True
    let ?c = "k @ ''.'' @ show_nat (i + 1)"
    have unfold: "suffix_loop keys k i fk = suffix_loop keys k (i + 1) ?c"
      using True by (subst suffix_loop.simps) simp
    note ih = "1.IH" [OF True]
    show ?thesis
    proof (cases "?c \<in> set keys")
      case False
      with ih have "suffix_loop keys k (i + 1) ?c = ?c" by simp
      with unfold False True show ?thesis
        by (intro conjI impI) (simp_all, rule exI [of _ "i + 1"], auto)
    next
      case c: True
      with ih obtain n where n: "n > i + 1"
        "suffix_loop keys k (i + 1) ?c = k @ ''.'' @ show_nat n"
        "\<forall>j. i + 1 < j \<and> j < n \<longrightarrow> k @ ''.'' @ show_nat j \<in> set keys"
        by auto
      have all: "\<forall>j. i < j \<and> j < n \<longrightarrow> k @ ''.'' @ show_nat j \<in> set keys"
      proof (intro allI impI)
        fix j assume "i < j \<and> j < n"
        then show "k @ ''.'' @ show_nat j \<in> set keys"
          using n(3) c by (cases "j = i + 1") auto
      qed
      from ih have "suffix_loop keys k (i + 1) ?c \<notin> set keys" by simp
      with unfold n all True show ?thesis
        by (intro conjI impI) (simp_all, rule exI [of _ n], auto)
    qed
  qed
qed

text \<open>
  What the loop body does for a candidate text that none of the three reads maps to a
  key (the read of \<open>aliasToKey\<close> gives \<open>undefined\<close>, and neither \<open>Map\<close> has the text):
  it queues a new key for the text. The minted key is \<open>generateKeyFromText\<close> of the text,
  that is \<open>auto.\<close> followed by the first 40 characters of the lower-cased text with each
  run of non-alphanumeric characters turned into one dot and the dots at both ends
  removed. If that key is not among the existing keys it is the final key; otherwise the
  final key is the minted key followed by \<open>.n\<close> for the least \<open>n\<close> from 2 on whose
  suffixed key is unused. The final key is never one of the existing keys.
\<close>

lemma mint_key_when_unmapped:
  assumes "get_prop aliasToKey (toLowerCase text) = Undefined" and "enToKey s text = None"
    and "enLowerToKey (toLowerCase text) = None"
  shows "\<exists>finalKey.
           newKeys (ensure_candidate now uuid enLowerToKey text s) = newKeys s @ [(finalKey, text)]
         \<and> map key (existing (ensure_candidate now uuid enLowerToKey text s))
             = map key (existing s) @ [finalKey]
         \<and> enToKey (ensure_candidate now uuid enLowerToKey text s) text = Some (Str finalKey)
         \<and> finalKey \<notin> key ` set (existing s)
         \<and> (let base = ''auto.'' @ take 40 (trim_dots (replace_runs (toLowerCase text)))
            in generateKeyFromText text = base
             \<and> (base \<notin> key ` set (existing s) \<longrightarrow> finalKey = base)
             \<and> (base \<in> key ` set (existing s) \<longrightarrow>
                  (\<exists>n \<ge> 2. finalKey = base @ ''.'' @ show_nat n
                     \<and> (\<forall>j. 2 \<le> j \<and> j < n \<longrightarrow>
                           base @ ''.'' @ show_nat j \<in> key ` set (existing s)))))"
proof -
  let ?k = "generateKeyFromText text"
  let ?keys = "map key (existing s)"
  let ?f = "suffix_loop ?keys ?k 1 ?k"
  have step: "ensure_candidate now uuid enLowerToKey text s =
      s\<lparr>newKeys := newKeys s @ [(?f, text)],
        store := createLocalization now (blank_entry (uuid (length (newKeys s))) ?f text) (store s),
        existing := existing s @ [new_row [] (blank_entry [] ?f text)],
        enToKey := (enToKey s)(text \<mapsto> Str ?f)\<rparr>"
    using assms by (simp add: ensure_candidate_def Let_def truthy_def)
  have base: "?k = ''auto.'' @ take 40 (trim_dots (replace_runs (toLowerCase text)))"
    by (simp add: generateKeyFromText_def Let_def)
  note sp = suffix_loop_spec [of ?keys ?k 1 ?k]
  have a: "?f \<notin> key ` set (existing s)" using sp by simp
  have b: "?k \<notin> key ` set (existing s) \<longrightarrow> ?f = ?k" using sp by simp
  have c: "?k \<in> key ` set (existing s) \<longrightarrow>
             (\<exists>n \<ge> 2. ?f = ?k @ ''.'' @ show_nat n
                \<and> (\<forall>j. 2 \<le> j \<and> j < n \<longrightarrow> ?k @ ''.'' @ show_nat j \<in> key ` set (existing s)))"
  proof
    assume "?k \<in> key ` set (existing s)"
    with sp obtain n where "n > 1" "?f = ?k @ ''.'' @ show_nat n"
      "\<forall>j. 1 < j \<and> j < n \<longrightarrow> ?k @ ''.'' @ show_nat j \<in> set ?keys" by auto
    then show "\<exists>n \<ge> 2. ?f = ?k @ ''.'' @ show_nat n
                \<and> (\<forall>j. 2 \<le> j \<and> j < n \<longrightarrow> ?k @ ''.'' @ show_nat j \<in> key ` set (existing s))"
      by (intro exI [of _ n]) auto
  qed
  show ?thesis
    unfolding Let_def
  proof (intro exI [of _ ?f] conjI)
    show "newKeys (ensure_candidate now uuid enLowerToKey text s) = newKeys s @ [(?f, text)]"
      by (simp add: step)
    show "map key (existing (ensure_candidate now uuid enLowerToKey text s)) = ?keys @ [?f]"
      by (simp add: step new_row_def blank_entry_def)
    show "enToKey (ensure_candidate now uuid enLowerToKey text s) text = Some (Str ?f)"
      by (simp add: step)
    show "?f \<notin> key ` set (existing s)" by (rule a)
    show "?k = ''auto.'' @ take 40 (trim_dots (replace_runs (toLowerCase text)))" by (rule base)
    show "''auto.'' @ take 40 (trim_dots (replace_runs (toLowerCase text))) \<notin> key ` set (existing s)
          \<longrightarrow> ?f = ''auto.'' @ take 40 (trim_dots (replace_runs (toLowerCase text)))"
      using b by (simp only: base)
    show "''auto.'' @ take 40 (trim_dots (replace_runs (toLowerCase text))) \<in> key ` set (existing s)
          \<longrightarrow> (\<exists>n \<ge> 2. ?f = (''auto.'' @ take 40 (trim_dots (replace_runs (toLowerCase text))))
                            @ ''.'' @ show_nat n
                 \<and> (\<forall>j. 2 \<le> j \<and> j < n \<longrightarrow>
                       (''auto.'' @ take 40 (trim_dots (replace_runs (toLowerCase text))))
                         @ ''.'' @ show_nat j \<in> key ` set (existing s)))"
      using c by (simp only: base)
  qed
qed

text \<open>\<open>generateKeyFromText\<close> on some texts, the last one longer than 40 characters.\<close>

lemma generateKeyFromText_examples:
  "generateKeyFromText ''Sign up free'' = ''auto.sign.up.free''
   \<and> generateKeyFromText ''  $9.99/mo -- Now!'' = ''auto.9.99.mo.now''
   \<and> generateKeyFromText ''toString'' = ''auto.tostring''
   \<and> generateKeyFromText ''Terms of Service and Privacy Policy, updated 2024''
        = ''auto.terms.of.service.and.privacy.policy.upda''"
  by code_simp

text \<open>
  Claim C3 fails on the code at the candidate text \<open>Constructor\<close>. The text is none of
  the four aliases and matches no English value of the store, with or without letter case,
  so the claim has the key \<open>auto.constructor\<close> minted for it. The read
  \<open>aliasToKey[lower]\<close> gives the inherited member \<open>constructor\<close> of \<open>Object.prototype\<close>,
  which is truthy: the loop takes it for a mapped key, stores it in \<open>enToKey\<close> and goes
  on to the next candidate. No key is queued and the store is not written. For the texts
  \<open>Sign up!\<close> and \<open>Sign up?\<close> the same loop mints \<open>auto.sign.up\<close> and
  \<open>auto.sign.up.2\<close>.
\<close>

theorem constructor_text_not_minted:
  "aliasToKey (toLowerCase ''Constructor'') = None
   \<and> list_all (\<lambda>e. trim (en e) \<noteq> ''Constructor''
                   \<and> toLowerCase (trim (en e)) \<noteq> toLowerCase ''Constructor'')
        (getAllLocalizations demo_store)
   \<and> generateKeyFromText ''Constructor'' = ''auto.constructor''
   \<and> get_prop aliasToKey (toLowerCase ''Constructor'') = Builtin ''constructor''
   \<and> newKeys (ensure_candidates ''t1'' (\<lambda>n. ''id'' @ show_nat n) [''Constructor''] demo_store) = []
   \<and> db (store (ensure_candidates ''t1'' (\<lambda>n. ''id'' @ show_nat n) [''Constructor''] demo_store))
       = db demo_store
   \<and> enToKey (ensure_candidates ''t1'' (\<lambda>n. ''id'' @ show_nat n) [''Constructor''] demo_store)
        ''Constructor'' = Some (Builtin ''constructor'')
   \<and> newKeys (ensure_candidates ''t1'' (\<lambda>n. ''id'' @ show_nat n) [''Sign up!'', ''Sign up?'']
               demo_store)
       = [(''auto.sign.up'', ''Sign up!''), (''auto.sign.up.2'', ''Sign up?'')]"
  by code_simp

section \<open>Properties of the rewriter\<close>

subsection \<open>Quoted key literals\<close>

lemma takeWhile_append_stop: "\<not> P y \<Longrightarrow> takeWhile P (xs @ y # ys) = takeWhile P xs"
  by (induction xs) auto

lemma dropWhile_append_stop: "\<not> P y \<Longrightarrow> dropWhile P (xs @ y # ys) = dropWhile P xs @ y # ys"
  by (induction xs) auto

lemma dot_groups_append:
  "dot_groups r = [] \<Longrightarrow> \<not> isWordChar q \<Longrightarrow> q \<noteq> CHR ''.'' \<Longrightarrow>
   dot_groups (r @ q # post) = q # post"
proof (induction r rule: dot_groups.induct)
  case (1 s)
  show ?case
  proof (cases s)
    case Nil
    then show ?thesis using "1.prems" by (subst dot_groups.simps) simp
  next
    case (Cons c r1)
    from "1.prems"(1) Cons have c: "c = CHR ''.''" and w: "takeWhile isWordChar r1 \<noteq> []"
      and rest: "dot_groups (dropWhile isWordChar r1) = []"
      by (subst (asm) dot_groups.simps, auto split: if_splits)+
    have ih: "dot_groups (dropWhile isWordChar r1 @ q # post) = q # post"
      using "1.IH" [OF Cons _ rest "1.prems"(2,3)] c w by simp
    have "dot_groups (s @ q # post) = dot_groups (dropWhile isWordChar (r1 @ q # post))"
      using Cons c w "1.prems"(2)
      by (subst dot_groups.simps) (simp add: takeWhile_append_stop)
    then show ?thesis using ih "1.prems"(2) by (simp add: dropWhile_append_stop)
  qed
qed

lemma isWordChar_isLetter: "isLetter c \<Longrightarrow> isWordChar c"
  by (simp add: isWordChar_def)

lemma key_token_append:
  assumes "key_shape k" and "\<not> isWordChar q" and "q \<noteq> CHR ''.''"
  shows "key_token (k @ q # post) = Some (k, q # post)"
proof -
  let ?r = "dropWhile isLetter k"
  from assms(1) have a: "takeWhile isLetter k \<noteq> []" and dg: "dot_groups ?r = []"
    and len: "length (dot_groups ?r) \<noteq> length ?r"
    by (auto simp: key_shape_def key_token_def Let_def split: if_splits option.splits)
  have nl: "\<not> isLetter q" using assms(2) isWordChar_isLetter by blast
  have tw: "takeWhile isLetter (k @ q # post) = takeWhile isLetter k"
    using nl by (rule takeWhile_append_stop)
  have dw: "dropWhile isLetter (k @ q # post) = ?r @ q # post"
    using nl by (rule dropWhile_append_stop)
  have dg': "dot_groups (?r @ q # post) = q # post"
    using dg assms(2,3) by (rule dot_groups_append)
  have ne: "?r \<noteq> []" using dg len by auto
  show ?thesis
    using a ne by (simp add: key_token_def Let_def tw dw dg')
qed

lemma quotes_not_word: "\<not> isWordChar sq" "\<not> isWordChar dq" "sq \<noteq> CHR ''.''" "dq \<noteq> CHR ''.''"
  by (simp_all add: sq_def dq_def isWordChar_def isLetter_def lower_chars_def upper_chars_def
      digit_chars_def)

lemma keyLike_literal_match:
  assumes "q = sq \<or> q = dq" and "key_shape k"
  shows "keyLike (q # k @ q # post) = Some (length k + 2, k)"
proof -
  have "key_token (k @ q # post) = Some (k, q # post)"
    using assms quotes_not_word by (auto intro: key_token_append)
  then show ?thesis using assms(1) by (auto simp: keyLike_def p_char_def)
qed

lemma keyLike_needs_quote: "c \<noteq> sq \<Longrightarrow> c \<noteq> dq \<Longrightarrow> keyLike (c # r) = None"
  by (simp add: keyLike_def)

lemma replace_all_skip:
  "(\<forall>c \<in> set xs. \<forall>r. m (c # r) = None) \<Longrightarrow>
   replace_all m f bf (xs @ rest) = xs @ replace_all m f (bf @ xs) rest"
  by (induction xs arbitrary: bf) simp_all

lemma replace_all_match:
  "m (c # cs) = Some (n, g) \<Longrightarrow> 0 < n \<Longrightarrow>
   replace_all m f bf (c # cs) =
     f (take n (c # cs)) g bf (drop n (c # cs))
     @ replace_all m f (bf @ take n (c # cs)) (drop n (c # cs))"
  by simp

lemma keyLike_scan_literal:
  assumes "q = sq \<or> q = dq" and "key_shape k" and "sq \<notin> set pre" and "dq \<notin> set pre"
  shows "keyLike_from allKeys bf (pre @ q # k @ q # post) =
           pre
           @ (if inside_call (bf @ pre) \<or> object_key post then q # k @ [q]
              else if k \<in> set allKeys \<or> resolvedKey k \<in> set allKeys
                   then ''{'' @ call_text (resolvedKey k) @ ''}''
                   else q # k @ [q])
           @ keyLike_from allKeys (bf @ pre @ q # k @ [q]) post"
proof -
  let ?f = "keyLike_replace allKeys"
  have skip: "replace_all keyLike ?f bf (pre @ q # k @ q # post)
                = pre @ replace_all keyLike ?f (bf @ pre) (q # k @ q # post)"
  proof (rule replace_all_skip, intro ballI allI)
    fix c r assume "c \<in> set pre"
    with assms(3,4) have "c \<noteq> sq" "c \<noteq> dq" by auto
    then show "keyLike (c # r) = None" by (rule keyLike_needs_quote)
  qed
  have m: "keyLike (q # k @ q # post) = Some (length k + 2, k)"
    using assms(1,2) by (rule keyLike_literal_match)
  have tk: "take (length k + 2) (q # k @ q # post) = q # k @ [q]"
    and dr: "drop (length k + 2) (q # k @ q # post) = post"
    by simp_all
  have "replace_all keyLike ?f (bf @ pre) (q # k @ q # post)
          = ?f (q # k @ [q]) k (bf @ pre) post
            @ replace_all keyLike ?f ((bf @ pre) @ q # k @ [q]) post"
    using replace_all_match [of keyLike q "k @ q # post" "length k + 2" k ?f "bf @ pre"] m
    by simp
  then show ?thesis
    by (simp add: keyLike_from_def skip keyLike_replace_def)
qed

text \<open>
  Claim C9, amended. Where the scan of the third pass meets a quoted literal of the key
  shape (the text before it, back to the place the scan stands, holds no quote), the
  literal is replaced by the brace-wrapped call on the alias-resolved key exactly when
  neither guard holds (the 12 characters before it do not end in \<open>t(\<close> or \<open>__i18n(\<close>
  and optional white space, the 5 characters behind it do not begin with optional white
  space and a colon) and the key or its alias is a key of the store. Otherwise the
  literal stays. In either case the scan goes on behind the literal.
\<close>

theorem keyLike_literal:
  assumes "q = sq \<or> q = dq" and "key_shape k" and "sq \<notin> set pre" and "dq \<notin> set pre"
  shows "keyLike_from allKeys bf (pre @ q # k @ q # post) =
           pre
           @ (if inside_call (bf @ pre) \<or> object_key post then q # k @ [q]
              else if k \<in> set allKeys \<or> resolvedKey k \<in> set allKeys
                   then ''{'' @ call_text (resolvedKey k) @ ''}''
                   else q # k @ [q])
           @ keyLike_from allKeys (bf @ pre @ q # k @ [q]) post"
  using assms by (rule keyLike_scan_literal)

theorem keyLike_literal_witness:
  "(sq = sq \<or> sq = dq) \<and> key_shape ''social.home'' \<and> sq \<notin> set ''x = '' \<and> dq \<notin> set ''x = ''
   \<and> \<not> inside_call ''x = '' \<and> \<not> object_key '';''
   \<and> resolvedKey ''social.home'' = ''navigation.home''
   \<and> keyLike_from (map key demo_rows) [] (key_src ''social.home'')
       = ''x = {__i18n('' @ [sq] @ ''navigation.home'' @ [sq] @ '')};''"
proof -
  have q: "sq = sq \<or> sq = dq" by simp
  have k: "key_shape ''social.home''" by code_simp
  have p: "sq \<notin> set ''x = ''" "dq \<notin> set ''x = ''" by (simp_all add: sq_def dq_def)
  have g: "\<not> inside_call ''x = ''" "\<not> object_key '';''" by code_simp+
  have r: "resolvedKey ''social.home'' = ''navigation.home''" by code_simp
  have a: "resolvedKey ''social.home'' \<in> set (map key demo_rows)" by code_simp
  have e: "keyLike_from (map key demo_rows) (''x = '' @ [sq] @ ''social.home'' @ [sq]) '';'' = '';''"
    by code_simp
  from keyLike_literal [OF q k p, of "map key demo_rows" "[]" "'';''"] g r a e
  have "keyLike_from (map key demo_rows) [] (key_src ''social.home'')
          = ''x = {__i18n('' @ [sq] @ ''navigation.home'' @ [sq] @ '')};''"
    by (simp add: key_src_def call_text_def)
  with q k p g r show ?thesis by blast
qed

text \<open>
  Claim C9, as stated, fails: the literal \<open>'foo.bar'\<close> has the key shape and neither
  guard holds, yet the rewriter returns the source as it was, because \<open>foo.bar\<close> is not a
  key of the store.
\<close>

theorem keyLike_unknown_key_counterexample:
  "key_shape ''foo.bar'' \<and> \<not> inside_call ''x = '' \<and> \<not> object_key '';''
   \<and> rewriteWithKeys demo_rows (key_src ''foo.bar'') = key_src ''foo.bar''"
  by code_simp

subsection \<open>Expression-wrapped literals\<close>

text \<open>The pieces of the patterns, and what a match of each pattern looks like.\<close>

lemma p_char_Some: "p_char c s = Some r \<longleftrightarrow> s = c # r"
  by (auto simp: p_char_def split: list.splits)

lemma p_ws_Some: "p_ws s = Some r \<longleftrightarrow> r = dropWhile isSpace s"
  by (auto simp: p_ws_def)

lemma p_lit_Some: "p_lit t s = Some r \<longleftrightarrow> s = t @ r"
proof
  assume "p_lit t s = Some r"
  then have "take (length t) s = t" "r = drop (length t) s"
    by (auto simp: p_lit_def split: if_splits)
  then show "s = t @ r" by (metis append_take_drop_id)
next
  assume "s = t @ r"
  then show "p_lit t s = Some r" by (simp add: p_lit_def)
qed

lemma p_quote_Some: "p_quote s = Some r \<longleftrightarrow> (\<exists>q. (q = sq \<or> q = dq) \<and> s = q # r)"
  by (auto simp: p_quote_def split: list.splits)

lemma ws_split: "\<exists>w. s = w @ dropWhile isSpace s \<and> (\<forall>c \<in> set w. isSpace c)"
  by (rule exI [of _ "takeWhile isSpace s"]) (auto dest: set_takeWhileD)

lemma quote_not_space: "\<not> isSpace sq" "\<not> isSpace dq"
  by (simp_all add: isSpace_def sq_def dq_def)

lemma brace_not_space: "\<not> isSpace CHR ''{''" "\<not> isSpace CHR ''}''" "\<not> isSpace CHR ''(''"
  by (simp_all add: isSpace_def)

lemma chars_not_quote:
  "CHR ''{'' \<noteq> sq" "CHR ''}'' \<noteq> sq" "CHR ''>'' \<noteq> sq" "CHR ''('' \<noteq> sq" "CHR '')'' \<noteq> sq"
  "CHR ''{'' \<noteq> dq" "CHR ''}'' \<noteq> dq" "CHR ''>'' \<noteq> dq" "CHR ''('' \<noteq> dq" "CHR '')'' \<noteq> dq"
  "sq \<noteq> dq"
  by (simp_all add: sq_def dq_def)

lemma colon_not_space: "\<not> isSpace CHR '':''" "CHR '':'' \<noteq> sq" "CHR '':'' \<noteq> CHR ''(''"
  by (simp_all add: isSpace_def sq_def)

lemma run_split:
  assumes "\<forall>x \<in> set w. P x" and "g = [] \<or> \<not> P (hd g)"
  shows "takeWhile P (w @ g) = w" and "dropWhile P (w @ g) = g"
proof -
  show "takeWhile P (w @ g) = w"
    using assms by (cases g) (simp_all add: takeWhile_append_stop)
  show "dropWhile P (w @ g) = g"
    using assms by (cases g) (simp_all add: dropWhile_append_stop)
qed

lemma spaces_then:
  assumes "\<forall>c \<in> set w. isSpace c" and "\<not> isSpace x"
  shows "dropWhile isSpace (w @ x # r) = x # r"
  using assms by (simp add: dropWhile_append_stop)

lemma wrapped_literal_direct:
  assumes "\<not> isSpace q" and "\<not> isSpace c1"
  shows "wrapped_literal c0 q c1 t (c0 # q # t @ q # c1 # rest) = Some (length t + 4, [])"
  using assms by (simp add: wrapped_literal_def p_char_def p_ws_def p_lit_def)

lemma dot_groups_prefix:
  "\<exists>g. r = g @ dot_groups r \<and> dot_groups g = [] \<and> (g \<noteq> [] \<longrightarrow> hd g = CHR ''.'')
       \<and> (\<forall>c \<in> set g. isWordChar c \<or> c = CHR ''.'')"
proof (induction r rule: dot_groups.induct)
  case (1 s)
  show ?case
  proof (cases s)
    case Nil
    have "dot_groups [] = []" by (subst dot_groups.simps) simp
    with Nil show ?thesis by simp
  next
    case (Cons c r1)
    show ?thesis
    proof (cases "c = CHR ''.'' \<and> takeWhile isWordChar r1 \<noteq> []")
      case True
      let ?w = "takeWhile isWordChar r1" and ?r2 = "dropWhile isWordChar r1"
      from "1.IH" [OF Cons] True obtain g2 where g2: "?r2 = g2 @ dot_groups ?r2"
        "dot_groups g2 = []" "g2 \<noteq> [] \<longrightarrow> hd g2 = CHR ''.''"
        "\<forall>c \<in> set g2. isWordChar c \<or> c = CHR ''.''" by blast
      have dg: "dot_groups s = dot_groups ?r2"
        using Cons True by (subst dot_groups.simps) simp
      let ?g = "CHR ''.'' # ?w @ g2"
      have w: "\<forall>x \<in> set ?w. isWordChar x" by (auto dest: set_takeWhileD)
      have stop: "g2 = [] \<or> \<not> isWordChar (hd g2)" using g2(3) isWordChar_not_dot by auto
      have "r1 = ?w @ ?r2" by simp
      then have "s = CHR ''.'' # ?w @ g2 @ dot_groups ?r2" using Cons True g2(1) by metis
      then have a: "s = ?g @ dot_groups s" using dg by simp
      have b: "dot_groups ?g = []"
        using True g2(2) by (subst dot_groups.simps) (simp add: run_split [OF w stop])
      have c: "\<forall>c \<in> set ?g. isWordChar c \<or> c = CHR ''.''" using w g2(4) by auto
      from a b c show ?thesis by (intro exI [of _ ?g]) simp
    next
      case False
      then have "dot_groups s = s" using Cons by (subst dot_groups.simps) auto
      moreover have "dot_groups [] = []" by (subst dot_groups.simps) simp
      ultimately show ?thesis by (intro exI [of _ "[]"]) simp
    qed
  qed
qed

lemma key_token_sound:
  assumes "key_token s = Some (k, r')"
  shows "s = k @ r' \<and> key_shape k"
proof -
  let ?a = "takeWhile isLetter s" and ?r = "dropWhile isLetter s"
  from assms have a: "?a \<noteq> []" and len: "length (dot_groups ?r) \<noteq> length ?r"
    and r': "r' = dot_groups ?r" and k: "k = take (length s - length r') s"
    by (auto simp: key_token_def Let_def split: if_splits)
  from dot_groups_prefix [of ?r] obtain g where g: "?r = g @ r'" "dot_groups g = []"
    "g \<noteq> [] \<longrightarrow> hd g = CHR ''.''" using r' by auto
  have gne: "g \<noteq> []" using g(1) len r' by auto
  have s: "s = ?a @ g @ r'" using g(1) takeWhile_dropWhile_id [of isLetter s] by simp
  then have "length s - length r' = length (?a @ g)" by (metis add_diff_cancel_right' append_assoc length_append)
  with k s have kk: "k = ?a @ g" by (metis append_assoc append_eq_conv_conj)
  have al: "\<forall>x \<in> set ?a. isLetter x" by (auto dest: set_takeWhileD)
  have stop: "g = [] \<or> \<not> isLetter (hd g)"
    using g(3) gne by (simp add: isLetter_def lower_chars_def upper_chars_def)
  have "key_token (?a @ g) = Some (?a @ g, [])"
    using a gne g(2) by (simp add: key_token_def Let_def run_split [OF al stop])
  then have "key_shape k" by (simp add: key_shape_def kk)
  with s kk show ?thesis by simp
qed

lemma keyLike_iff:
  "keyLike s = Some (n, k) \<longleftrightarrow>
     (\<exists>q rest. (q = sq \<or> q = dq) \<and> s = q # k @ q # rest \<and> key_shape k \<and> n = length k + 2)"
proof
  assume m: "keyLike s = Some (n, k)"
  then obtain q r r' r'' where s: "s = q # r" and q: "q = sq \<or> q = dq"
    and kt: "key_token r = Some (k, r')" and pc: "p_char q r' = Some r''"
    and n: "n = length s - length r''"
    by (auto simp: keyLike_def split: list.splits if_splits option.splits)
  from key_token_sound [OF kt] have r: "r = k @ r'" and ks: "key_shape k" by simp_all
  from pc have r': "r' = q # r''" by (simp add: p_char_Some)
  from s r r' n have "s = q # k @ q # r''" "n = length k + 2" by simp_all
  with q ks show "\<exists>q rest. (q = sq \<or> q = dq) \<and> s = q # k @ q # rest \<and> key_shape k \<and> n = length k + 2"
    by blast
next
  assume "\<exists>q rest. (q = sq \<or> q = dq) \<and> s = q # k @ q # rest \<and> key_shape k \<and> n = length k + 2"
  then show "keyLike s = Some (n, k)" using keyLike_literal_match by auto
qed

lemma wrapped_literal_iff:
  assumes "\<not> isSpace q" and "\<not> isSpace c1"
  shows "wrapped_literal c0 q c1 t s = Some (n, g) \<longleftrightarrow>
     (\<exists>w1 w2 rest. s = c0 # w1 @ q # t @ q # w2 @ c1 # rest
        \<and> (\<forall>c \<in> set w1. isSpace c) \<and> (\<forall>c \<in> set w2. isSpace c)
        \<and> n = length w1 + length t + length w2 + 4 \<and> g = [])"
proof
  assume m: "wrapped_literal c0 q c1 t s = Some (n, g)"
  then obtain r1 r3 r4 r5 r7 where
    1: "s = c0 # r1" and 3: "dropWhile isSpace r1 = q # r3" and 4: "r3 = t @ r4"
    and 5: "r4 = q # r5" and 7: "dropWhile isSpace r5 = c1 # r7"
    and n: "n = length s - length r7" and g: "g = []"
    by (auto simp: wrapped_literal_def p_char_Some p_ws_Some p_lit_Some
        split: option.splits)
  obtain w1 where w1: "r1 = w1 @ dropWhile isSpace r1" "\<forall>c \<in> set w1. isSpace c"
    using ws_split by blast
  obtain w2 where w2: "r5 = w2 @ dropWhile isSpace r5" "\<forall>c \<in> set w2. isSpace c"
    using ws_split by blast
  have s: "s = c0 # w1 @ q # t @ q # w2 @ c1 # r7"
    using 1 3 4 5 7 w1(1) w2(1) by metis
  then have "length s = length w1 + length t + length w2 + 4 + length r7" by simp
  with n have "n = length w1 + length t + length w2 + 4" by simp
  with s w1(2) w2(2) g
  show "\<exists>w1 w2 rest. s = c0 # w1 @ q # t @ q # w2 @ c1 # rest
        \<and> (\<forall>c \<in> set w1. isSpace c) \<and> (\<forall>c \<in> set w2. isSpace c)
        \<and> n = length w1 + length t + length w2 + 4 \<and> g = []" by blast
next
  assume "\<exists>w1 w2 rest. s = c0 # w1 @ q # t @ q # w2 @ c1 # rest
        \<and> (\<forall>c \<in> set w1. isSpace c) \<and> (\<forall>c \<in> set w2. isSpace c)
        \<and> n = length w1 + length t + length w2 + 4 \<and> g = []"
  then obtain w1 w2 rest where s: "s = c0 # w1 @ q # t @ q # w2 @ c1 # rest"
    and w1: "\<forall>c \<in> set w1. isSpace c" and w2: "\<forall>c \<in> set w2. isSpace c"
    and n: "n = length w1 + length t + length w2 + 4" and g: "g = []" by blast
  show "wrapped_literal c0 q c1 t s = Some (n, g)"
    by (simp add: wrapped_literal_def s n g p_char_def p_ws_def p_lit_def
        spaces_then [OF w1 assms(1)] spaces_then [OF w2 assms(2)])
qed

lemma tCall_iff:
  "tCall s = Some (n, k) \<longleftrightarrow>
     (\<exists>w1 q1 q2 w2 rest. s = ''t('' @ w1 @ q1 # k @ q2 # w2 @ CHR '')'' # rest
        \<and> (\<forall>c \<in> set w1. isSpace c) \<and> (\<forall>c \<in> set w2. isSpace c)
        \<and> (q1 = sq \<or> q1 = dq) \<and> (q2 = sq \<or> q2 = dq) \<and> key_shape k
        \<and> n = length w1 + length k + length w2 + 5)"
proof
  assume m: "tCall s = Some (n, k)"
  then obtain r0 q1 r r' q2 r5 r7 where
    1: "s = ''t('' @ r0" and 2: "dropWhile isSpace r0 = q1 # r" and q1: "q1 = sq \<or> q1 = dq"
    and kt: "key_token r = Some (k, r')" and 3: "r' = q2 # r5" and q2: "q2 = sq \<or> q2 = dq"
    and 4: "dropWhile isSpace r5 = CHR '')'' # r7" and n: "n = length s - length r7"
    by (auto simp: tCall_def p_lit_Some p_ws_Some p_quote_Some p_char_Some split: option.splits)
  from key_token_sound [OF kt] have r: "r = k @ r'" and ks: "key_shape k" by simp_all
  obtain w1 where w1: "r0 = w1 @ dropWhile isSpace r0" "\<forall>c \<in> set w1. isSpace c"
    using ws_split by blast
  obtain w2 where w2: "r5 = w2 @ dropWhile isSpace r5" "\<forall>c \<in> set w2. isSpace c"
    using ws_split by blast
  have s: "s = ''t('' @ w1 @ q1 # k @ q2 # w2 @ CHR '')'' # r7"
    using 1 2 3 4 r w1(1) w2(1) by (metis append_Cons append_Nil)
  then have "length s = length w1 + length k + length w2 + 5 + length r7" by simp
  with n have "n = length w1 + length k + length w2 + 5" by simp
  with s w1(2) w2(2) q1 q2 ks
  show "\<exists>w1 q1 q2 w2 rest. s = ''t('' @ w1 @ q1 # k @ q2 # w2 @ CHR '')'' # rest
        \<and> (\<forall>c \<in> set w1. isSpace c) \<and> (\<forall>c \<in> set w2. isSpace c)
        \<and> (q1 = sq \<or> q1 = dq) \<and> (q2 = sq \<or> q2 = dq) \<and> key_shape k
        \<and> n = length w1 + length k + length w2 + 5" by blast
next
  assume "\<exists>w1 q1 q2 w2 rest. s = ''t('' @ w1 @ q1 # k @ q2 # w2 @ CHR '')'' # rest
        \<and> (\<forall>c \<in> set w1. isSpace c) \<and> (\<forall>c \<in> set w2. isSpace c)
        \<and> (q1 = sq \<or> q1 = dq) \<and> (q2 = sq \<or> q2 = dq) \<and> key_shape k
        \<and> n = length w1 + length k + length w2 + 5"
  then obtain w1 q1 q2 w2 rest where s: "s = ''t('' @ w1 @ q1 # k @ q2 # w2 @ CHR '')'' # rest"
    and w1: "\<forall>c \<in> set w1. isSpace c" and w2: "\<forall>c \<in> set w2. isSpace c"
    and q1: "q1 = sq \<or> q1 = dq" and q2: "q2 = sq \<or> q2 = dq" and ks: "key_shape k"
    and n: "n = length w1 + length k + length w2 + 5" by blast
  have nq1: "\<not> isSpace q1" using q1 quote_not_space by auto
  have kt: "key_token (k @ q2 # w2 @ CHR '')'' # rest) = Some (k, q2 # w2 @ CHR '')'' # rest)"
    using ks q2 quotes_not_word by (auto intro: key_token_append)
  have cp: "\<not> isSpace CHR '')''" by (simp add: isSpace_def)
  show "tCall s = Some (n, k)"
    using q1 q2
    by (auto simp: tCall_def s n p_lit_def p_ws_def p_quote_def p_char_def kt
        spaces_then [OF w1 nq1] spaces_then [OF w2 cp])
qed

lemma propKey_iff:
  assumes "q = sq \<or> q = dq"
  shows "propKey f q s = Some (n, k) \<longleftrightarrow>
     (\<exists>w1 w2 rest. s = f @ w1 @ CHR '':'' # w2 @ q # k @ q # rest
        \<and> (\<forall>c \<in> set w1. isSpace c) \<and> (\<forall>c \<in> set w2. isSpace c) \<and> key_shape k
        \<and> n = length f + length w1 + length w2 + length k + 3)"
proof
  assume m: "propKey f q s = Some (n, k)"
  then obtain r1 r3 r r' r'' where 1: "s = f @ r1" and 2: "dropWhile isSpace r1 = CHR '':'' # r3"
    and 3: "dropWhile isSpace r3 = q # r" and kt: "key_token r = Some (k, r')"
    and 4: "r' = q # r''" and n: "n = length s - length r''"
    by (auto simp: propKey_def p_lit_Some p_ws_Some p_char_Some split: option.splits)
  from key_token_sound [OF kt] have r: "r = k @ r'" and ks: "key_shape k" by simp_all
  obtain w1 where w1: "r1 = w1 @ dropWhile isSpace r1" "\<forall>c \<in> set w1. isSpace c"
    using ws_split by blast
  obtain w2 where w2: "r3 = w2 @ dropWhile isSpace r3" "\<forall>c \<in> set w2. isSpace c"
    using ws_split by blast
  have s: "s = f @ w1 @ CHR '':'' # w2 @ q # k @ q # r''"
    using 1 2 3 4 r w1(1) w2(1) by (metis append_Cons append_Nil)
  then have "length s = length f + length w1 + length w2 + length k + 3 + length r''" by simp
  with n have "n = length f + length w1 + length w2 + length k + 3" by simp
  with s w1(2) w2(2) ks
  show "\<exists>w1 w2 rest. s = f @ w1 @ CHR '':'' # w2 @ q # k @ q # rest
        \<and> (\<forall>c \<in> set w1. isSpace c) \<and> (\<forall>c \<in> set w2. isSpace c) \<and> key_shape k
        \<and> n = length f + length w1 + length w2 + length k + 3" by blast
next
  assume "\<exists>w1 w2 rest. s = f @ w1 @ CHR '':'' # w2 @ q # k @ q # rest
        \<and> (\<forall>c \<in> set w1. isSpace c) \<and> (\<forall>c \<in> set w2. isSpace c) \<and> key_shape k
        \<and> n = length f + length w1 + length w2 + length k + 3"
  then obtain w1 w2 rest where s: "s = f @ w1 @ CHR '':'' # w2 @ q # k @ q # rest"
    and w1: "\<forall>c \<in> set w1. isSpace c" and w2: "\<forall>c \<in> set w2. isSpace c"
    and ks: "key_shape k" and n: "n = length f + length w1 + length w2 + length k + 3" by blast
  have nq: "\<not> isSpace q" using assms quote_not_space by auto
  have kt: "key_token (k @ q # rest) = Some (k, q # rest)"
    using ks assms quotes_not_word by (auto intro: key_token_append)
  show "propKey f q s = Some (n, k)"
    by (simp add: propKey_def s n p_lit_def p_ws_def p_char_def kt
        spaces_then [OF w1 colon_not_space(1)] spaces_then [OF w2 nq])
qed

text \<open>The characters of a key of the key shape.\<close>

lemma dot_groups_chars:
  "dot_groups r = [] \<Longrightarrow> \<forall>c \<in> set r. isWordChar c \<or> c = CHR ''.''"
proof (induction r rule: dot_groups.induct)
  case (1 s)
  show ?case
  proof (cases s)
    case Nil
    then show ?thesis by simp
  next
    case (Cons c r1)
    from "1.prems" Cons have c: "c = CHR ''.''" and w: "takeWhile isWordChar r1 \<noteq> []"
      and rest: "dot_groups (dropWhile isWordChar r1) = []"
      by (subst (asm) dot_groups.simps, auto split: if_splits)+
    have ih: "\<forall>c \<in> set (dropWhile isWordChar r1). isWordChar c \<or> c = CHR ''.''"
      using "1.IH" [OF Cons _ rest] c w by simp
    have "set r1 = set (takeWhile isWordChar r1) \<union> set (dropWhile isWordChar r1)"
      by (metis set_append takeWhile_dropWhile_id)
    with ih have "\<forall>c \<in> set r1. isWordChar c \<or> c = CHR ''.''"
      by (auto dest: set_takeWhileD)
    with Cons c show ?thesis by simp
  qed
qed

lemma key_shape_chars:
  assumes "key_shape k"
  shows "\<forall>c \<in> set k. isWordChar c \<or> c = CHR ''.''"
proof -
  from assms have dg: "dot_groups (dropWhile isLetter k) = []"
    by (auto simp: key_shape_def key_token_def Let_def split: if_splits option.splits)
  have "set k = set (takeWhile isLetter k) \<union> set (dropWhile isLetter k)"
    by (metis set_append takeWhile_dropWhile_id)
  with dot_groups_chars [OF dg] show ?thesis
    by (auto dest: set_takeWhileD isWordChar_isLetter)
qed

lemma not_key_chars:
  "\<not> (isWordChar sq \<or> sq = CHR ''.'')" "\<not> (isWordChar dq \<or> dq = CHR ''.'')"
  "\<not> (isWordChar CHR ''$'' \<or> CHR ''$'' = CHR ''.'')"
  "\<not> (isWordChar CHR ''('' \<or> CHR ''('' = CHR ''.'')"
  "\<not> (isWordChar CHR '':'' \<or> CHR '':'' = CHR ''.'')"
  "\<not> (isWordChar CHR ''>'' \<or> CHR ''>'' = CHR ''.'')"
  "\<not> (isWordChar CHR ''{'' \<or> CHR ''{'' = CHR ''.'')"
  by (simp_all add: sq_def dq_def isWordChar_def isLetter_def lower_chars_def upper_chars_def
      digit_chars_def)

lemma key_shape_free:
  assumes "key_shape k"
  shows "sq \<notin> set k" "dq \<notin> set k" "CHR ''$'' \<notin> set k"
  using key_shape_chars [OF assms] not_key_chars by blast+

lemma key_shape_no_brace: "key_shape k \<Longrightarrow> CHR ''{'' \<notin> set k"
  using key_shape_chars not_key_chars(7) by blast

lemma space_no_brace: "\<forall>c \<in> set w. isSpace c \<Longrightarrow> CHR ''{'' \<notin> set w"
  using brace_not_space(1) by blast

text \<open>Every pattern of the rewriter has local matches.\<close>

lemma local_matchI:
  assumes "\<And>s n g. m s = Some (n, g) \<Longrightarrow>
     \<exists>body rest. s = body @ rest \<and> length body = n \<and> body \<noteq> []
        \<and> CHR ''{'' \<notin> set (tl body) \<and> (\<forall>r. m (body @ r) = Some (n, g))"
  shows "local_match m"
  unfolding local_match_def
proof (intro allI impI)
  fix s n g assume "m s = Some (n, g)"
  from assms [OF this] obtain body rest where b: "s = body @ rest" "length body = n" "body \<noteq> []"
    "CHR ''{'' \<notin> set (tl body)" "\<forall>r. m (body @ r) = Some (n, g)" by blast
  then have "take n s = body" by simp
  with b show "0 < n \<and> n \<le> length s \<and> CHR ''{'' \<notin> set (tl (take n s))
        \<and> (\<forall>r. m (take n s @ r) = Some (n, g))" by auto
qed

lemma local_keyLike: "local_match keyLike"
proof (rule local_matchI)
  fix s n g assume "keyLike s = Some (n, g)"
  then obtain q rest where q: "q = sq \<or> q = dq" and s: "s = q # g @ q # rest"
    and ks: "key_shape g" and n: "n = length g + 2" by (auto simp: keyLike_iff)
  let ?b = "q # g @ [q]"
  have "\<forall>r. keyLike (?b @ r) = Some (n, g)" using q ks n by (auto simp: keyLike_iff)
  moreover have "CHR ''{'' \<notin> set (tl ?b)"
    using q key_shape_no_brace [OF ks] by (auto simp: sq_def dq_def)
  ultimately show "\<exists>body rest. s = body @ rest \<and> length body = n \<and> body \<noteq> []
        \<and> CHR ''{'' \<notin> set (tl body) \<and> (\<forall>r. keyLike (body @ r) = Some (n, g))"
    using s n by (intro exI [of _ ?b] exI [of _ rest]) simp
qed

lemma local_wrapped:
  assumes "\<not> isSpace q" and "\<not> isSpace c1" and "q \<noteq> CHR ''{''" and "c1 \<noteq> CHR ''{''"
    and "CHR ''{'' \<notin> set t"
  shows "local_match (wrapped_literal c0 q c1 t)"
proof (rule local_matchI)
  fix s n g assume "wrapped_literal c0 q c1 t s = Some (n, g)"
  then obtain w1 w2 rest where s: "s = c0 # w1 @ q # t @ q # w2 @ c1 # rest"
    and w1: "\<forall>c \<in> set w1. isSpace c" and w2: "\<forall>c \<in> set w2. isSpace c"
    and n: "n = length w1 + length t + length w2 + 4" and g: "g = []"
    by (auto simp: wrapped_literal_iff [OF assms(1,2)])
  let ?b = "c0 # w1 @ q # t @ q # w2 @ [c1]"
  have "\<forall>r. wrapped_literal c0 q c1 t (?b @ r) = Some (n, g)"
  proof
    fix r
    have "\<exists>w1' w2' rest'. ?b @ r = c0 # w1' @ q # t @ q # w2' @ c1 # rest'
        \<and> (\<forall>c \<in> set w1'. isSpace c) \<and> (\<forall>c \<in> set w2'. isSpace c)
        \<and> n = length w1' + length t + length w2' + 4 \<and> g = []"
      using w1 w2 n g by (intro exI [of _ w1] exI [of _ w2] exI [of _ r]) simp
    then show "wrapped_literal c0 q c1 t (?b @ r) = Some (n, g)"
      by (simp only: wrapped_literal_iff [OF assms(1,2)])
  qed
  moreover have "CHR ''{'' \<notin> set (tl ?b)"
    using assms(3,4,5) space_no_brace [OF w1] space_no_brace [OF w2] by auto
  ultimately show "\<exists>body rest. s = body @ rest \<and> length body = n \<and> body \<noteq> []
        \<and> CHR ''{'' \<notin> set (tl body) \<and> (\<forall>r. wrapped_literal c0 q c1 t (body @ r) = Some (n, g))"
    using s n by (intro exI [of _ ?b] exI [of _ rest]) simp
qed

lemma local_tCall: "local_match tCall"
proof (rule local_matchI)
  fix s n g assume "tCall s = Some (n, g)"
  then obtain w1 q1 q2 w2 rest where s: "s = ''t('' @ w1 @ q1 # g @ q2 # w2 @ CHR '')'' # rest"
    and w1: "\<forall>c \<in> set w1. isSpace c" and w2: "\<forall>c \<in> set w2. isSpace c"
    and q1: "q1 = sq \<or> q1 = dq" and q2: "q2 = sq \<or> q2 = dq" and ks: "key_shape g"
    and n: "n = length w1 + length g + length w2 + 5"
    by (auto simp: tCall_iff)
  let ?b = "''t('' @ w1 @ q1 # g @ q2 # w2 @ '')''"
  have "\<forall>r. tCall (?b @ r) = Some (n, g)"
  proof
    fix r
    have "\<exists>w1' q1' q2' w2' rest'. ?b @ r = ''t('' @ w1' @ q1' # g @ q2' # w2' @ CHR '')'' # rest'
        \<and> (\<forall>c \<in> set w1'. isSpace c) \<and> (\<forall>c \<in> set w2'. isSpace c)
        \<and> (q1' = sq \<or> q1' = dq) \<and> (q2' = sq \<or> q2' = dq) \<and> key_shape g
        \<and> n = length w1' + length g + length w2' + 5"
      using w1 w2 q1 q2 ks n
      by (intro exI [of _ w1] exI [of _ q1] exI [of _ q2] exI [of _ w2] exI [of _ r]) simp
    then show "tCall (?b @ r) = Some (n, g)" by (simp only: tCall_iff)
  qed
  moreover have "CHR ''{'' \<notin> set (tl ?b)"
    using q1 q2 key_shape_no_brace [OF ks] space_no_brace [OF w1] space_no_brace [OF w2]
    by (auto simp: sq_def dq_def)
  ultimately show "\<exists>body rest. s = body @ rest \<and> length body = n \<and> body \<noteq> []
        \<and> CHR ''{'' \<notin> set (tl body) \<and> (\<forall>r. tCall (body @ r) = Some (n, g))"
    using s n by (intro exI [of _ ?b] exI [of _ rest]) simp
qed

lemma local_propKey:
  assumes "q = sq \<or> q = dq" and "CHR ''{'' \<notin> set f"
  shows "local_match (propKey f q)"
proof (rule local_matchI)
  fix s n g assume "propKey f q s = Some (n, g)"
  then obtain w1 w2 rest where s: "s = f @ w1 @ CHR '':'' # w2 @ q # g @ q # rest"
    and w1: "\<forall>c \<in> set w1. isSpace c" and w2: "\<forall>c \<in> set w2. isSpace c"
    and ks: "key_shape g" and n: "n = length f + length w1 + length w2 + length g + 3"
    by (auto simp: propKey_iff [OF assms(1)])
  let ?b = "f @ w1 @ CHR '':'' # w2 @ q # g @ [q]"
  have "\<forall>r. propKey f q (?b @ r) = Some (n, g)"
  proof
    fix r
    have "\<exists>w1' w2' rest'. ?b @ r = f @ w1' @ CHR '':'' # w2' @ q # g @ q # rest'
        \<and> (\<forall>c \<in> set w1'. isSpace c) \<and> (\<forall>c \<in> set w2'. isSpace c) \<and> key_shape g
        \<and> n = length f + length w1' + length w2' + length g + 3"
      using w1 w2 ks n by (intro exI [of _ w1] exI [of _ w2] exI [of _ r]) simp
    then show "propKey f q (?b @ r) = Some (n, g)" by (simp only: propKey_iff [OF assms(1)])
  qed
  moreover have "CHR ''{'' \<notin> set ?b"
    using assms key_shape_no_brace [OF ks] space_no_brace [OF w1] space_no_brace [OF w2]
    by (auto simp: sq_def dq_def)
  then have "CHR ''{'' \<notin> set (tl ?b)" by (metis list.set_sel(2) tl_Nil)
  ultimately show "\<exists>body rest. s = body @ rest \<and> length body = n \<and> body \<noteq> []
        \<and> CHR ''{'' \<notin> set (tl body) \<and> (\<forall>r. propKey f q (body @ r) = Some (n, g))"
    using s n by (intro exI [of _ ?b] exI [of _ rest]) simp
qed

text \<open>
  The scan of a text \<open>X{...\<close>: a match that starts in \<open>X\<close> ends in \<open>X\<close>, so the
  scan treats \<open>X\<close> as it treats \<open>X\<close> alone when the replacement does not look at what
  follows the brace; and the scan of what follows a text does not depend on that text when
  the replacement does not look at it.
\<close>

lemma replace_all_skip_suffixes:
  "(\<forall>p. suffix p xs \<longrightarrow> p \<noteq> [] \<longrightarrow> m (p @ rest) = None) \<Longrightarrow>
   replace_all m f bf (xs @ rest) = xs @ replace_all m f (bf @ xs) rest"
proof (induction xs arbitrary: bf)
  case Nil
  show ?case by simp
next
  case (Cons c cs)
  have "m ((c # cs) @ rest) = None" using Cons.prems by blast
  moreover have "replace_all m f (bf @ [c]) (cs @ rest) = cs @ replace_all m f ((bf @ [c]) @ cs) rest"
    using Cons.prems by (intro Cons.IH) (auto simp: suffix_Cons)
  ultimately show ?case by simp
qed

lemma replace_all_before_brace:
  assumes loc: "local_match m"
    and fa: "\<And>mt g b x. f mt g b (x @ CHR ''{'' # R) = f mt g b x"
  shows "replace_all m f bf (X @ CHR ''{'' # R)
         = replace_all m f bf X @ replace_all m f (bf @ X) (CHR ''{'' # R)"
proof (induction "length X" arbitrary: X bf rule: less_induct)
  case less
  show ?case
  proof (cases X)
    case Nil
    then show ?thesis by simp
  next
    case (Cons c cs)
    let ?s1 = "c # cs" and ?s2 = "c # cs @ CHR ''{'' # R"
    have step: "replace_all m f (bf @ [c]) (cs @ CHR ''{'' # R)
          = replace_all m f (bf @ [c]) cs @ replace_all m f ((bf @ [c]) @ cs) (CHR ''{'' # R)"
      using less [of cs "bf @ [c]"] Cons by simp
    show ?thesis
    proof (cases "m ?s2")
      case None
      have "m ?s1 = None"
      proof (cases "m ?s1")
        case (Some ng)
        obtain n g where ng: "ng = (n, g)" by (cases ng)
        from loc Some ng have "m (take n ?s1 @ drop n ?s1 @ CHR ''{'' # R) = Some (n, g)"
          unfolding local_match_def by blast
        moreover have "take n ?s1 @ drop n ?s1 @ CHR ''{'' # R = ?s2"
          by (metis append_Cons append_assoc append_take_drop_id)
        ultimately show ?thesis using None by simp
      qed simp
      with None step Cons show ?thesis by simp
    next
      case (Some ng)
      obtain n g where ng: "ng = (n, g)" by (cases ng)
      from loc Some ng have n0: "0 < n" and nb: "CHR ''{'' \<notin> set (tl (take n ?s2))"
        and nl: "n \<le> length ?s2" and ext: "\<And>r. m (take n ?s2 @ r) = Some (n, g)"
        unfolding local_match_def by blast+
      have le: "n \<le> length ?s1"
      proof (rule ccontr)
        assume "\<not> n \<le> length ?s1"
        then have "take n ?s2 = ?s1 @ CHR ''{'' # take (n - length ?s1 - 1) R"
          by (simp add: take_Cons' take_append)
        with nb show False by simp
      qed
      then have tk: "take n ?s2 = take n ?s1" and dr: "drop n ?s2 = drop n ?s1 @ CHR ''{'' # R"
        by (cases n; simp)+
      from ext [of "drop n ?s1"] tk have m1: "m ?s1 = Some (n, g)" by simp
      have rec: "replace_all m f (bf @ take n ?s1) (drop n ?s1 @ CHR ''{'' # R)
          = replace_all m f (bf @ take n ?s1) (drop n ?s1)
            @ replace_all m f ((bf @ take n ?s1) @ drop n ?s1) (CHR ''{'' # R)"
        using less [of "drop n ?s1" "bf @ take n ?s1"] Cons n0 by simp
      have "replace_all m f bf ?s2
          = f (take n ?s1) g bf (drop n ?s1 @ CHR ''{'' # R)
            @ replace_all m f (bf @ take n ?s1) (drop n ?s1 @ CHR ''{'' # R)"
        using replace_all_match [of m c "cs @ CHR ''{'' # R" n g f bf] Some ng n0 tk dr by simp
      moreover have "replace_all m f bf ?s1
          = f (take n ?s1) g bf (drop n ?s1) @ replace_all m f (bf @ take n ?s1) (drop n ?s1)"
        using replace_all_match [of m c cs n g f bf] m1 n0 by simp
      ultimately show ?thesis using rec fa Cons by simp
    qed
  qed
qed

lemma replace_all_forget:
  assumes "\<And>mt g y af. f mt g (z @ y) af = f mt g y af"
  shows "replace_all m f (z @ y0) s = replace_all m f y0 s"
proof (induction "length s" arbitrary: s y0 rule: less_induct)
  case less
  show ?case
  proof (cases s)
    case Nil
    then show ?thesis by simp
  next
    case (Cons c cs)
    have 1: "replace_all m f (z @ y0 @ [c]) cs = replace_all m f (y0 @ [c]) cs"
      using less [of cs "y0 @ [c]"] Cons by simp
    show ?thesis
    proof (cases "m (c # cs)")
      case None
      with 1 Cons show ?thesis by simp
    next
      case (Some ng)
      obtain n g where ng: "ng = (n, g)" by (cases ng)
      show ?thesis
      proof (cases "n = 0")
        case True
        with Some ng 1 Cons show ?thesis by simp
      next
        case False
        have 2: "replace_all m f (z @ y0 @ take n (c # cs)) (drop n (c # cs))
                 = replace_all m f (y0 @ take n (c # cs)) (drop n (c # cs))"
          using less [of "drop n (c # cs)" "y0 @ take n (c # cs)"] Cons False by simp
        from Some ng False 2 assms [of _ _ y0] Cons show ?thesis by simp
      qed
    qed
  qed
qed

lemma scan_three:
  assumes loc: "local_match m"
    and fa: "\<And>mt g b x R. f mt g b (x @ CHR ''{'' # R) = f mt g b x"
    and fb: "\<And>mt g y af. f mt g ((X @ CHR ''{'' # M) @ y) af = f mt g y af"
    and mid: "replace_all m f X (CHR ''{'' # M @ Y) = M' @ replace_all m f (X @ CHR ''{'' # M) Y"
  shows "replace_all m f [] (X @ CHR ''{'' # M @ Y)
         = replace_all m f [] X @ M' @ replace_all m f [] Y"
proof -
  have "replace_all m f [] (X @ CHR ''{'' # M @ Y)
          = replace_all m f [] X @ replace_all m f ([] @ X) (CHR ''{'' # M @ Y)"
    using loc fa by (rule replace_all_before_brace)
  also have "\<dots> = replace_all m f [] X @ M' @ replace_all m f (X @ CHR ''{'' # M) Y"
    using mid by simp
  also have "replace_all m f (X @ CHR ''{'' # M) Y = replace_all m f [] Y"
    using replace_all_forget [of f "X @ CHR ''{'' # M" m "[]" Y] fb by simp
  finally show ?thesis .
qed

lemma scan_three_keep:
  assumes loc: "local_match m"
    and fa: "\<And>mt g b x R. f mt g b (x @ CHR ''{'' # R) = f mt g b x"
    and fb: "\<And>mt g y af. f mt g ((X @ CHR ''{'' # M) @ y) af = f mt g y af"
    and none: "\<And>p. suffix p (CHR ''{'' # M) \<Longrightarrow> p \<noteq> [] \<Longrightarrow> m (p @ Y) = None"
  shows "replace_all m f [] (X @ CHR ''{'' # M @ Y)
         = replace_all m f [] X @ (CHR ''{'' # M) @ replace_all m f [] Y"
proof -
  have mid: "replace_all m f X (CHR ''{'' # M @ Y)
          = (CHR ''{'' # M) @ replace_all m f (X @ CHR ''{'' # M) Y"
    using replace_all_skip_suffixes [of "CHR ''{'' # M" m Y f X] none by simp
  show ?thesis
    using scan_three [of m f X M Y "CHR ''{'' # M"] loc fa fb mid by blast
qed

text \<open>
  The guards of the replacement functions look at a few characters around the match: an
  opening brace behind the match and a closing brace before it hide everything beyond.
\<close>

lemma object_key_before_brace: "object_key (x @ CHR ''{'' # R) = object_key x"
proof (cases "\<forall>c \<in> set (take 5 x). isSpace c")
  case False
  then obtain c where c: "c \<in> set (take 5 x)" "\<not> isSpace c" by blast
  then have ne: "dropWhile isSpace (take 5 x) \<noteq> []" by auto
  have "dropWhile isSpace (take 5 (x @ CHR ''{'' # R))
          = dropWhile isSpace (take 5 x) @ take (5 - length x) (CHR ''{'' # R)"
    using c by (simp add: dropWhile_append1)
  with ne show ?thesis
    by (cases "dropWhile isSpace (take 5 x)") (simp_all add: object_key_def starts_with_def)
next
  case True
  then have e: "dropWhile isSpace (take 5 x) = []" by simp
  show ?thesis
  proof (cases "5 \<le> length x")
    case True
    then show ?thesis by (simp add: object_key_def)
  next
    case False
    then have t5: "take 5 x = x" by simp
    with True have xs: "\<forall>c \<in> set x. isSpace c" by simp
    obtain rest where "take 5 (x @ CHR ''{'' # R) = x @ CHR ''{'' # rest"
      using False by (cases "5 - length x") simp_all
    then have "dropWhile isSpace (take 5 (x @ CHR ''{'' # R)) = CHR ''{'' # rest"
      by (simp only: spaces_then [OF xs brace_not_space(1)])
    then show ?thesis using e by (simp only: object_key_def Let_def starts_with_def) simp
  qed
qed

lemma starts_brace_before_brace:
  "starts_with ''}'' (take 10 (x @ CHR ''{'' # R)) = starts_with ''}'' (take 10 x)"
  by (cases x) (simp_all add: starts_with_def)

lemma keyLike_replace_ahead:
  "keyLike_replace allKeys mt k b (x @ CHR ''{'' # R) = keyLike_replace allKeys mt k b x"
  by (simp add: keyLike_replace_def object_key_before_brace)

lemma tCall_replace_ahead:
  "tCall_replace mt k b (x @ CHR ''{'' # R) = tCall_replace mt k b x"
  by (simp only: tCall_replace_def Let_def starts_brace_before_brace)

lemma ends_with_suffix: "ends_with p s \<longleftrightarrow> suffix p s"
proof
  assume "ends_with p s"
  then have "drop (length s - length p) s = p" by (simp add: ends_with_def)
  then show "suffix p s" by (metis suffix_drop)
next
  assume "suffix p s"
  then obtain a where "s = a @ p" by (auto simp: suffix_def)
  then show "ends_with p s" by (simp add: ends_with_def)
qed

lemma suffix_over: "c \<notin> set p \<Longrightarrow> suffix p (u @ c # v) \<longleftrightarrow> suffix p v"
  by (auto simp: suffix_append suffix_Cons)

lemma rstrip_over: "\<not> isSpace c \<Longrightarrow> rstrip (u @ c # y) = u @ c # rstrip y"
  by (simp add: rstrip_def dropWhile_append_stop)

lemma last_chars_over:
  "last_chars n (z @ c # y) = last_chars n y \<and> last_chars n y = drop (length y - n) y \<and> n \<le> length y
   \<or> (\<exists>u. last_chars n (z @ c # y) = u @ c # y) \<and> last_chars n y = y"
proof (cases "n \<le> length y")
  case True
  then show ?thesis by (simp add: last_chars_def Suc_diff_le)
next
  case False
  then have "length z + Suc (length y) - n \<le> length z" by simp
  then have "last_chars n (z @ c # y) = drop (length z + Suc (length y) - n) z @ c # y"
    by (simp add: last_chars_def)
  moreover have "last_chars n y = y" using False by (simp add: last_chars_def)
  ultimately show ?thesis by blast
qed

lemma ends_with_window:
  assumes "c \<notin> set p" and "\<not> isSpace c"
  shows "ends_with p (rstrip (last_chars n (z @ c # y))) = ends_with p (rstrip (last_chars n y))"
  using last_chars_over [of n z c y]
proof
  assume "last_chars n (z @ c # y) = last_chars n y \<and> last_chars n y = drop (length y - n) y \<and> n \<le> length y"
  then show ?thesis by simp
next
  assume "(\<exists>u. last_chars n (z @ c # y) = u @ c # y) \<and> last_chars n y = y"
  then obtain u where u: "last_chars n (z @ c # y) = u @ c # y" and y: "last_chars n y = y" by blast
  show ?thesis
    by (simp add: u y rstrip_over [OF assms(2)] ends_with_suffix suffix_over [OF assms(1)])
qed

lemma inside_call_behind_brace: "inside_call (z @ CHR ''}'' # y) = inside_call y"
proof -
  have 1: "CHR ''}'' \<notin> set ''t(''" "CHR ''}'' \<notin> set ''__i18n(''" by simp_all
  show ?thesis
    by (simp only: inside_call_def Let_def ends_with_window [OF 1(1) brace_not_space(2)]
        ends_with_window [OF 1(2) brace_not_space(2)])
qed

lemma keyLike_replace_behind:
  "keyLike_replace allKeys mt k ((z @ ''}'') @ y) af = keyLike_replace allKeys mt k y af"
  using inside_call_behind_brace [of z y] by (simp add: keyLike_replace_def)

lemma ends_brace_window:
  "ends_with ''{'' (last_chars n (z @ CHR ''}'' # y)) = ends_with ''{'' (last_chars n y)"
  using last_chars_over [of n z "CHR ''}''" y]
proof
  assume "last_chars n (z @ CHR ''}'' # y) = last_chars n y \<and> last_chars n y = drop (length y - n) y \<and> n \<le> length y"
  then show ?thesis by simp
next
  assume "(\<exists>u. last_chars n (z @ CHR ''}'' # y) = u @ CHR ''}'' # y) \<and> last_chars n y = y"
  then obtain u where u: "last_chars n (z @ CHR ''}'' # y) = u @ CHR ''}'' # y"
    and y: "last_chars n y = y" by blast
  have "CHR ''}'' \<notin> set ''{''" by simp
  from suffix_over [OF this] show ?thesis by (simp add: u y ends_with_suffix)
qed

lemma window_chars:
  assumes "n \<le> length C + length y" and "x \<notin> set C"
  shows "x \<in> set (last_chars n ((X @ C) @ y)) \<longleftrightarrow> x \<in> set (last_chars n y)"
proof (cases "n \<le> length y")
  case True
  then show ?thesis by (simp add: last_chars_def)
next
  case False
  then have "length X + length C + length y - n = length X + (length C + length y - n)"
    using assms(1) by simp
  then have "last_chars n ((X @ C) @ y) = drop (length C + length y - n) C @ y"
    using False assms(1) by (simp add: last_chars_def)
  moreover have "last_chars n y = y" using False by (simp add: last_chars_def)
  moreover have "x \<notin> set (drop (length C + length y - n) C)"
    using assms(2) by (meson in_set_dropD)
  ultimately show ?thesis by simp
qed

lemma tCall_replace_behind:
  assumes "10 \<le> length C" and "CHR ''='' \<notin> set C"
  shows "tCall_replace mt k ((X @ C @ ''}'') @ y) af = tCall_replace mt k y af"
proof -
  have a: "ends_with ''{'' (last_chars 10 ((X @ C @ ''}'') @ y)) = ends_with ''{'' (last_chars 10 y)"
    using ends_brace_window [of 10 "X @ C" y] by simp
  have "CHR ''='' \<notin> set (C @ ''}'')" using assms(2) by simp
  from window_chars [OF _ this, of 10 y X] assms(1)
  have b: "CHR ''='' \<in> set (last_chars 10 ((X @ C @ ''}'') @ y)) \<longleftrightarrow> CHR ''='' \<in> set (last_chars 10 y)"
    by simp
  show ?thesis by (simp only: tCall_replace_def Let_def a b)
qed

text \<open>The literal: the only pattern that matches in it is its own.\<close>

lemma takeWhile_until: "q \<notin> set u \<Longrightarrow> takeWhile (\<lambda>c. c \<noteq> q) (u @ q # v) = u"
  by (induction u) auto

lemma split_first_unique:
  assumes "q \<notin> set u" and "q \<notin> set u'" and "u @ q # v = u' @ q # v'"
  shows "u = u' \<and> v = v'"
proof -
  have "takeWhile (\<lambda>c. c \<noteq> q) (u @ q # v) = u" using assms(1) by (rule takeWhile_until)
  moreover have "takeWhile (\<lambda>c. c \<noteq> q) (u' @ q # v') = u'"
    using assms(2) by (rule takeWhile_until)
  ultimately have "u = u'" using assms(3) by simp
  with assms(3) show ?thesis by simp
qed

lemma expand_plain: "CHR ''$'' \<notin> set tpl \<Longrightarrow> expand tpl m bf af = tpl"
  by (induction tpl m bf af rule: expand.induct) auto

lemma braced_brace: "braced q T = CHR ''{'' # (q # T @ [q, CHR ''}''])"
  by (simp add: braced_def)

lemma braced_other_none:
  assumes q0: "q0 = sq \<or> q0 = dq" and T: "plain_text T"
    and c0: "c0 = CHR ''>'' \<or> c0 = CHR ''{''" and q: "q = sq \<or> q = dq"
    and c1: "\<not> isSpace c1" and t: "plain_text t"
    and other: "c0 \<noteq> CHR ''{'' \<or> q \<noteq> q0 \<or> t \<noteq> T"
    and p: "suffix p (braced q0 T)" "p \<noteq> []"
  shows "wrapped_literal c0 q c1 t (p @ Y) = None"
proof (cases "wrapped_literal c0 q c1 t (p @ Y)")
  case (Some ng)
  obtain n g where ng: "ng = (n, g)" by (cases ng)
  have nq: "\<not> isSpace q" using q quote_not_space by auto
  from Some ng obtain w1 w2 rest where s: "p @ Y = c0 # w1 @ q # t @ q # w2 @ c1 # rest"
    and w1: "\<forall>c \<in> set w1. isSpace c"
    by (auto simp: wrapped_literal_iff [OF nq c1])
  from p consider "p = braced q0 T" | "suffix p (q0 # T @ [q0, CHR ''}''])"
    by (auto simp: braced_def suffix_Cons)
  then show ?thesis
  proof cases
    case 1
    with s have c: "c0 = CHR ''{''" and s1: "q0 # T @ q0 # CHR ''}'' # Y = w1 @ q # t @ q # w2 @ c1 # rest"
      by (simp_all add: braced_def)
    have "w1 = []" using s1 w1 q0 quote_not_space by (cases w1) auto
    with s1 have qq: "q = q0" and s2: "T @ q0 # CHR ''}'' # Y = t @ q0 # w2 @ c1 # rest" by auto
    have "q0 \<notin> set T" "q0 \<notin> set t" using q0 T t by (auto simp: plain_text_def)
    from split_first_unique [OF this s2] have "T = t" by simp
    with c qq other show ?thesis by simp
  next
    case 2
    from p(2) s have "hd p = c0" by (cases p) auto
    moreover have "hd p \<in> set p" using p(2) by simp
    moreover have "set p \<subseteq> set (q0 # T @ [q0, CHR ''}''])" using 2 by (rule set_mono_suffix)
    ultimately have "c0 \<in> set (q0 # T @ [q0, CHR ''}''])" by auto
    with c0 q0 T show ?thesis by (auto simp: plain_text_def sq_def dq_def)
  qed
qed simp

lemma braced_own:
  assumes "q0 = sq \<or> q0 = dq" and "CHR ''$'' \<notin> set tpl"
  shows "replace_all (wrapped_literal CHR ''{'' q0 CHR ''}'' T) (\<lambda>mt g bf af. expand tpl mt bf af) bf
           (braced q0 T @ Y)
         = tpl @ replace_all (wrapped_literal CHR ''{'' q0 CHR ''}'' T)
                   (\<lambda>mt g bf af. expand tpl mt bf af) (bf @ braced q0 T) Y"
proof -
  let ?m = "wrapped_literal CHR ''{'' q0 CHR ''}'' T"
  have nq: "\<not> isSpace q0" using assms(1) quote_not_space by auto
  have m: "?m (CHR ''{'' # q0 # T @ q0 # CHR ''}'' # Y) = Some (length T + 4, [])"
    using wrapped_literal_direct [OF nq brace_not_space(2)] by simp
  have tk: "take (length T + 4) (CHR ''{'' # q0 # T @ q0 # CHR ''}'' # Y) = braced q0 T"
    and dr: "drop (length T + 4) (CHR ''{'' # q0 # T @ q0 # CHR ''}'' # Y) = Y"
    by (simp_all add: braced_def numeral_eq_Suc)
  show ?thesis
    using replace_all_match [of ?m "CHR ''{''" "q0 # T @ q0 # CHR ''}'' # Y" "length T + 4" "[]"
        "\<lambda>mt g bf af. expand tpl mt bf af" bf] m expand_plain [OF assms(2)]
    by (simp only: tk dr) (simp add: braced_def)
qed

text \<open>The call: no pattern matches in it but the key pattern, whose guard leaves it alone.\<close>

lemma inside_call_i18n: "inside_call (pre @ ''{__i18n('')"
proof -
  obtain y where w: "last_chars 12 (pre @ ''{__i18n('') = y @ ''{__i18n(''"
    by (simp add: last_chars_def)
  have r: "rstrip (y @ ''{__i18n('') = y @ ''{__i18n(''"
    by (simp add: rstrip_def isSpace_def)
  have "ends_with ''__i18n('' (y @ ''{__i18n('')"
    by (simp add: ends_with_def)
  then show ?thesis by (simp only: inside_call_def Let_def w r) simp
qed

lemma braced_call_eq: "braced_call k = ''{__i18n('' @ sq # k @ sq # '')}''"
  by (simp add: braced_call_def call_text_def)

lemma braced_call_brace: "braced_call k = CHR ''{'' # (call_text k @ ''}'')"
  by (simp add: braced_call_def)

lemma braced_call_chars:
  assumes "key_shape k"
  shows "CHR ''>'' \<notin> set (braced_call k)" "CHR '':'' \<notin> set (braced_call k)"
    "CHR ''='' \<notin> set (braced_call k)" "CHR ''{'' \<notin> set (tl (braced_call k))"
    "\<forall>c \<in> set (braced_call k). \<not> isSpace c"
proof -
  have k: "\<forall>c \<in> set k. isWordChar c \<or> c = CHR ''.''" using key_shape_chars [OF assms] .
  have n: "\<not> (isWordChar CHR ''='' \<or> CHR ''='' = CHR ''.'')"
    by (simp add: isWordChar_def isLetter_def lower_chars_def upper_chars_def digit_chars_def)
  have sp: "\<And>c. isWordChar c \<or> c = CHR ''.'' \<Longrightarrow> \<not> isSpace c"
    by (auto simp: isWordChar_def isLetter_def lower_chars_def upper_chars_def digit_chars_def
        isSpace_def)
  show "CHR ''>'' \<notin> set (braced_call k)" using k not_key_chars(6)
    by (auto simp: braced_call_eq sq_def)
  show "CHR '':'' \<notin> set (braced_call k)" using k not_key_chars(5)
    by (auto simp: braced_call_eq sq_def)
  show "CHR ''='' \<notin> set (braced_call k)" using k n
    by (auto simp: braced_call_eq sq_def)
  show "CHR ''{'' \<notin> set (tl (braced_call k))" using k not_key_chars(7)
    by (auto simp: braced_call_eq sq_def)
  show "\<forall>c \<in> set (braced_call k). \<not> isSpace c" using k sp quote_not_space(1)
    by (auto simp: braced_call_eq isSpace_def)
qed

lemma suffix_whole: "suffix p (x # xs) \<Longrightarrow> p \<noteq> [] \<Longrightarrow> hd p \<notin> set xs \<Longrightarrow> p = x # xs"
proof -
  assume a: "suffix p (x # xs)" "p \<noteq> []" "hd p \<notin> set xs"
  show "p = x # xs"
  proof (rule ccontr)
    assume "p \<noteq> x # xs"
    with a(1) have "suffix p xs" by (simp add: suffix_Cons)
    then have "set p \<subseteq> set xs" by (rule set_mono_suffix)
    with a(2,3) show False by (cases p) auto
  qed
qed

lemma suffix_last: "suffix p (xs @ [c]) \<Longrightarrow> p \<noteq> [] \<Longrightarrow> last p = c"
  by (auto simp: suffix_def) (metis last_appendR last_snoc)

lemma call_wrapped_none:
  assumes k: "key_shape k" and c0: "c0 = CHR ''>'' \<or> c0 = CHR ''{''" and q: "q = sq \<or> q = dq"
    and c1: "\<not> isSpace c1" and p: "suffix p (braced_call k)" "p \<noteq> []"
  shows "wrapped_literal c0 q c1 t (p @ Y) = None"
proof (cases "wrapped_literal c0 q c1 t (p @ Y)")
  case (Some ng)
  obtain n g where ng: "ng = (n, g)" by (cases ng)
  have nq: "\<not> isSpace q" using q quote_not_space by auto
  from Some ng obtain w1 w2 rest where s: "p @ Y = c0 # w1 @ q # t @ q # w2 @ c1 # rest"
    and w1: "\<forall>c \<in> set w1. isSpace c"
    by (auto simp: wrapped_literal_iff [OF nq c1])
  from p(2) s have hd: "hd p = c0" by (cases p) auto
  have sub: "set p \<subseteq> set (braced_call k)" using p(1) by (rule set_mono_suffix)
  have "hd p \<in> set p" using p(2) by simp
  with hd sub braced_call_chars(1) [OF k] c0 have c: "c0 = CHR ''{''" by auto
  have "p = braced_call k"
    using suffix_whole [of p "CHR ''{''" "tl (braced_call k)"] p hd c braced_call_chars(4) [OF k]
    by (simp add: braced_call_def)
  with s c have "CHR ''_'' # ''_i18n('' @ sq # k @ sq # '')}'' @ Y = w1 @ q # t @ q # w2 @ c1 # rest"
    by (simp add: braced_call_eq)
  with w1 q show ?thesis by (cases w1) (auto simp: isSpace_def sq_def dq_def)
qed simp

lemma call_suffix_cases:
  assumes "suffix p (braced_call k)"
  obtains (lead) p1 where "p = p1 @ sq # k @ sq # '')}''" "suffix p1 ''{__i18n(''"
    | (key) p2 where "p = p2 @ sq # '')}''" "suffix p2 k"
    | (tail) "suffix p '')}''"
  using assms unfolding braced_call_eq by (auto simp: suffix_append suffix_Cons)

lemma call_tCall_none:
  assumes k: "key_shape k" and p: "suffix p (braced_call k)" "p \<noteq> []"
  shows "tCall (p @ Y) = None"
proof (cases "tCall (p @ Y)")
  case (Some ng)
  obtain n g where ng: "ng = (n, g)" by (cases ng)
  from Some ng obtain r where s: "p @ Y = CHR ''t'' # CHR ''('' # r" by (auto simp: tCall_iff)
  have kc: "CHR ''('' \<notin> set k" using key_shape_chars [OF k] not_key_chars(4) by blast
  from p(1) show ?thesis
  proof (cases rule: call_suffix_cases)
    case (lead p1)
    from lead(2) s lead(1) show ?thesis by (auto simp: suffix_Cons sq_def)
  next
    case (key p2)
    have "set p2 \<subseteq> set k" using key(2) by (rule set_mono_suffix)
    with kc have np: "CHR ''('' \<notin> set p2" by blast
    show ?thesis
    proof (cases p2)
      case Nil
      with key(1) s show ?thesis by (simp add: sq_def)
    next
      case (Cons a as)
      with key(1) s np show ?thesis by (cases as) (auto simp: sq_def)
    qed
  next
    case tail
    with p(2) s show ?thesis by (auto simp: suffix_Cons)
  qed
qed simp

lemma call_propKey_none:
  assumes k: "key_shape k" and q: "q = sq \<or> q = dq" and f: "CHR ''}'' \<notin> set f"
    and p: "suffix p (braced_call k)" "p \<noteq> []"
  shows "propKey f q (p @ Y) = None"
proof (cases "propKey f q (p @ Y)")
  case (Some ng)
  obtain n g where ng: "ng = (n, g)" by (cases ng)
  from Some ng obtain w1 rest where s0: "p @ Y = (f @ w1 @ '':'') @ rest"
    and w1: "\<forall>c \<in> set w1. isSpace c"
    by (auto simp: propKey_iff [OF q])
  define L where "L = f @ w1 @ '':''"
  have s: "p @ Y = L @ rest" using s0 by (simp add: L_def)
  have Lc: "CHR '':'' \<in> set L" "CHR ''}'' \<notin> set L"
    using f w1 brace_not_space(2) by (auto simp: L_def)
  have sub: "set p \<subseteq> set (braced_call k)" using p(1) by (rule set_mono_suffix)
  have l: "last p = CHR ''}''"
    using suffix_last [of p "CHR ''{'' # call_text k" "CHR ''}''"] p by (simp add: braced_call_def)
  from s obtain u where "p = L @ u \<or> p @ u = L"
    by (auto simp: append_eq_append_conv2)
  then show ?thesis
  proof
    assume "p = L @ u"
    then have "CHR '':'' \<in> set p" using Lc(1) by simp
    with sub braced_call_chars(2) [OF k] show ?thesis by blast
  next
    assume "p @ u = L"
    then have "set p \<subseteq> set L" by (metis set_append sup_ge1)
    moreover have "last p \<in> set p" using p(2) by simp
    ultimately show ?thesis using l Lc(2) by auto
  qed
qed simp

lemma call_keyLike:
  assumes "key_shape k"
  shows "replace_all keyLike (keyLike_replace allKeys) bf (braced_call k @ Y)
         = braced_call k @ replace_all keyLike (keyLike_replace allKeys) (bf @ braced_call k) Y"
proof -
  have p: "sq \<notin> set ''{__i18n(''" "dq \<notin> set ''{__i18n(''" by (simp_all add: sq_def dq_def)
  have q: "sq = sq \<or> sq = dq" by simp
  have tail: "replace_all keyLike (keyLike_replace allKeys) b ('')}'' @ Y)
                = '')}'' @ replace_all keyLike (keyLike_replace allKeys) (b @ '')}'') Y" for b
  proof (rule replace_all_skip, intro ballI allI)
    fix c r assume "c \<in> set '')}''"
    then have "c \<noteq> sq" "c \<noteq> dq" by (auto simp: sq_def dq_def)
    then show "keyLike (c # r) = None" by (rule keyLike_needs_quote)
  qed
  from keyLike_scan_literal [OF q assms p, of allKeys bf "'')}'' @ Y"]
  show ?thesis
    using inside_call_i18n [of bf] tail
    by (simp add: keyLike_from_def braced_call_eq)
qed

text \<open>The passes on a text that holds the literal or the call.\<close>

lemma literal_pass_keep:
  assumes q: "q = sq \<or> q = dq" and c1: "c1 = CHR ''<'' \<or> c1 = CHR ''}''"
    and t: "CHR ''{'' \<notin> set t" and tpl: "CHR ''$'' \<notin> set tpl" and mid: "Mid = CHR ''{'' # M"
    and none: "\<And>p. suffix p Mid \<Longrightarrow> p \<noteq> [] \<Longrightarrow> wrapped_literal c0 q c1 t (p @ Y) = None"
  shows "replace_literal (wrapped_literal c0 q c1 t) tpl (X @ Mid @ Y)
         = replace_literal (wrapped_literal c0 q c1 t) tpl X @ Mid
           @ replace_literal (wrapped_literal c0 q c1 t) tpl Y"
proof -
  have nq: "\<not> isSpace q" "q \<noteq> CHR ''{''" using q quote_not_space by (auto simp: sq_def dq_def)
  have nc: "\<not> isSpace c1" "c1 \<noteq> CHR ''{''" using c1 by (auto simp: isSpace_def)
  have loc: "local_match (wrapped_literal c0 q c1 t)"
    using nq(1) nc(1) nq(2) nc(2) t by (rule local_wrapped)
  have fe: "(\<lambda>mt (g::string) bf af. expand tpl mt bf af) = (\<lambda>mt g bf af. tpl)"
    by (intro ext) (rule expand_plain [OF tpl])
  show ?thesis
    unfolding replace_literal_def mid fe
    using scan_three_keep [of "wrapped_literal c0 q c1 t" "\<lambda>mt g bf af. tpl" X M Y]
      loc none [unfolded mid]
    by simp
qed

lemma literal_pass_own:
  assumes q0: "q0 = sq \<or> q0 = dq" and T: "CHR ''{'' \<notin> set T" and tpl: "CHR ''$'' \<notin> set tpl"
  shows "replace_literal (wrapped_literal CHR ''{'' q0 CHR ''}'' T) tpl (X @ braced q0 T @ Y)
         = replace_literal (wrapped_literal CHR ''{'' q0 CHR ''}'' T) tpl X @ tpl
           @ replace_literal (wrapped_literal CHR ''{'' q0 CHR ''}'' T) tpl Y"
proof -
  let ?m = "wrapped_literal CHR ''{'' q0 CHR ''}'' T"
  let ?f = "\<lambda>mt g bf af. expand tpl mt bf af"
  have nq: "\<not> isSpace q0" "q0 \<noteq> CHR ''{''" using q0 quote_not_space by (auto simp: sq_def dq_def)
  have loc: "local_match ?m"
    using nq(1) brace_not_space(2) nq(2) _ T by (rule local_wrapped) simp
  have b: "braced q0 T = CHR ''{'' # (q0 # T @ [q0, CHR ''}''])" by (simp add: braced_def)
  have fe: "?f = (\<lambda>mt g bf af. tpl)"
    by (intro ext) (rule expand_plain [OF tpl])
  have mid: "replace_all ?m (\<lambda>mt g bf af. tpl) X (CHR ''{'' # (q0 # T @ [q0, CHR ''}'']) @ Y)
               = tpl @ replace_all ?m (\<lambda>mt g bf af. tpl) (X @ CHR ''{'' # (q0 # T @ [q0, CHR ''}''])) Y"
    using braced_own [OF q0 tpl, of T X Y] unfolding fe b by simp
  show ?thesis
    unfolding replace_literal_def b fe
    using scan_three [of ?m "\<lambda>mt g bf af. tpl" X "q0 # T @ [q0, CHR ''}'']" Y tpl, OF loc _ _ mid]
    by simp
qed

lemma call_text_plain: "CHR ''$'' \<notin> set k \<Longrightarrow> CHR ''$'' \<notin> set (call_text k)"
  by (simp add: call_text_def sq_def)

lemma rewrite_text_skip:
  "t = [] \<or> toLowerCase t = ''react'' \<or> toLowerCase t = ''use client'' \<Longrightarrow>
   rewrite_text (t, k) out = out"
  by (auto simp: rewrite_text_def Let_def)

lemma rewrite_text_passes:
  assumes "t \<noteq> []" and "toLowerCase t \<noteq> ''react''" and "toLowerCase t \<noteq> ''use client''"
  shows "rewrite_text (t, k) out =
     replace_literal (wrapped_literal CHR ''{'' dq CHR ''}'' t) (''{'' @ call_text k @ ''}'')
       (replace_literal (wrapped_literal CHR ''{'' sq CHR ''}'' t) (''{'' @ call_text k @ ''}'')
         (replace_literal (wrapped_literal CHR ''>'' dq CHR ''<'' t) (''> {'' @ call_text k @ ''} <'')
           (replace_literal (wrapped_literal CHR ''>'' sq CHR ''<'' t) (''> {'' @ call_text k @ ''} <'')
              out)))"
  using assms by (simp add: rewrite_text_def Let_def)

lemma literal_pass_braced_keep:
  assumes "q0 = sq \<or> q0 = dq" and "plain_text T" and "plain_text t"
    and "c0 = CHR ''>'' \<or> c0 = CHR ''{''" and "q = sq \<or> q = dq"
    and "c1 = CHR ''<'' \<or> c1 = CHR ''}''" and "c0 \<noteq> CHR ''{'' \<or> q \<noteq> q0 \<or> t \<noteq> T"
    and "CHR ''$'' \<notin> set tpl"
  shows "replace_literal (wrapped_literal c0 q c1 t) tpl (X @ braced q0 T @ Y)
         = replace_literal (wrapped_literal c0 q c1 t) tpl X @ braced q0 T
           @ replace_literal (wrapped_literal c0 q c1 t) tpl Y"
proof (rule literal_pass_keep [OF assms(5,6) _ assms(8) braced_brace])
  show "CHR ''{'' \<notin> set t" using assms(3) by (simp add: plain_text_def)
next
  fix p assume p: "suffix p (braced q0 T)" "p \<noteq> []"
  have "\<not> isSpace c1" using assms(6) by (auto simp: isSpace_def)
  from braced_other_none [OF assms(1,2,4,5) this assms(3,7) p]
  show "wrapped_literal c0 q c1 t (p @ Y) = None" .
qed

lemma literal_pass_call_keep:
  assumes "key_shape K" and "CHR ''{'' \<notin> set t"
    and "c0 = CHR ''>'' \<or> c0 = CHR ''{''" and "q = sq \<or> q = dq"
    and "c1 = CHR ''<'' \<or> c1 = CHR ''}''" and "CHR ''$'' \<notin> set tpl"
  shows "replace_literal (wrapped_literal c0 q c1 t) tpl (X @ braced_call K @ Y)
         = replace_literal (wrapped_literal c0 q c1 t) tpl X @ braced_call K
           @ replace_literal (wrapped_literal c0 q c1 t) tpl Y"
proof (rule literal_pass_keep [OF assms(4,5,2,6) braced_call_brace])
  fix p assume p: "suffix p (braced_call K)" "p \<noteq> []"
  have "\<not> isSpace c1" using assms(5) by (auto simp: isSpace_def)
  from call_wrapped_none [OF assms(1,3,4) this p]
  show "wrapped_literal c0 q c1 t (p @ Y) = None" .
qed

lemma rewrite_text_other:
  assumes "q0 = sq \<or> q0 = dq" and "plain_text T" and "plain_text t" and "t \<noteq> T"
    and "CHR ''$'' \<notin> set k"
  shows "rewrite_text (t, k) (X @ braced q0 T @ Y)
         = rewrite_text (t, k) X @ braced q0 T @ rewrite_text (t, k) Y"
proof (cases "t = [] \<or> toLowerCase t = ''react'' \<or> toLowerCase t = ''use client''")
  case True
  then show ?thesis by (simp add: rewrite_text_skip)
next
  case False
  then have ne: "t \<noteq> []" "toLowerCase t \<noteq> ''react''" "toLowerCase t \<noteq> ''use client''" by simp_all
  have p1: "CHR ''$'' \<notin> set (''> {'' @ call_text k @ ''} <'')"
    and p2: "CHR ''$'' \<notin> set (''{'' @ call_text k @ ''}'')"
    using call_text_plain [OF assms(5)] by simp_all
  have o: "c0 \<noteq> CHR ''{'' \<or> q \<noteq> q0 \<or> t \<noteq> T" for c0 q using assms(4) by simp
  note keep = literal_pass_braced_keep [OF assms(1,2,3) _ _ _ o]
  have a: "replace_literal (wrapped_literal CHR ''>'' sq CHR ''<'' t) (''> {'' @ call_text k @ ''} <'')
             (X' @ braced q0 T @ Y')
           = replace_literal (wrapped_literal CHR ''>'' sq CHR ''<'' t) (''> {'' @ call_text k @ ''} <'') X'
             @ braced q0 T
             @ replace_literal (wrapped_literal CHR ''>'' sq CHR ''<'' t) (''> {'' @ call_text k @ ''} <'') Y'"
    for X' Y' by (rule keep [OF _ _ _ p1]) simp_all
  have b: "replace_literal (wrapped_literal CHR ''>'' dq CHR ''<'' t) (''> {'' @ call_text k @ ''} <'')
             (X' @ braced q0 T @ Y')
           = replace_literal (wrapped_literal CHR ''>'' dq CHR ''<'' t) (''> {'' @ call_text k @ ''} <'') X'
             @ braced q0 T
             @ replace_literal (wrapped_literal CHR ''>'' dq CHR ''<'' t) (''> {'' @ call_text k @ ''} <'') Y'"
    for X' Y' by (rule keep [OF _ _ _ p1]) simp_all
  have c: "replace_literal (wrapped_literal CHR ''{'' sq CHR ''}'' t) (''{'' @ call_text k @ ''}'')
             (X' @ braced q0 T @ Y')
           = replace_literal (wrapped_literal CHR ''{'' sq CHR ''}'' t) (''{'' @ call_text k @ ''}'') X'
             @ braced q0 T
             @ replace_literal (wrapped_literal CHR ''{'' sq CHR ''}'' t) (''{'' @ call_text k @ ''}'') Y'"
    for X' Y' by (rule keep [OF _ _ _ p2]) simp_all
  have d: "replace_literal (wrapped_literal CHR ''{'' dq CHR ''}'' t) (''{'' @ call_text k @ ''}'')
             (X' @ braced q0 T @ Y')
           = replace_literal (wrapped_literal CHR ''{'' dq CHR ''}'' t) (''{'' @ call_text k @ ''}'') X'
             @ braced q0 T
             @ replace_literal (wrapped_literal CHR ''{'' dq CHR ''}'' t) (''{'' @ call_text k @ ''}'') Y'"
    for X' Y' by (rule keep [OF _ _ _ p2]) simp_all
  show ?thesis by (simp only: rewrite_text_passes [OF ne] a b c d)
qed

lemma rewrite_text_call:
  assumes "key_shape K" and "CHR ''{'' \<notin> set t" and "CHR ''$'' \<notin> set k"
  shows "rewrite_text (t, k) (X @ braced_call K @ Y)
         = rewrite_text (t, k) X @ braced_call K @ rewrite_text (t, k) Y"
proof (cases "t = [] \<or> toLowerCase t = ''react'' \<or> toLowerCase t = ''use client''")
  case True
  then show ?thesis by (simp add: rewrite_text_skip)
next
  case False
  then have ne: "t \<noteq> []" "toLowerCase t \<noteq> ''react''" "toLowerCase t \<noteq> ''use client''" by simp_all
  have p1: "CHR ''$'' \<notin> set (''> {'' @ call_text k @ ''} <'')"
    and p2: "CHR ''$'' \<notin> set (''{'' @ call_text k @ ''}'')"
    using call_text_plain [OF assms(3)] by simp_all
  note keep = literal_pass_call_keep [OF assms(1,2)]
  have a: "replace_literal (wrapped_literal CHR ''>'' sq CHR ''<'' t) (''> {'' @ call_text k @ ''} <'')
             (X' @ braced_call K @ Y')
           = replace_literal (wrapped_literal CHR ''>'' sq CHR ''<'' t) (''> {'' @ call_text k @ ''} <'') X'
             @ braced_call K
             @ replace_literal (wrapped_literal CHR ''>'' sq CHR ''<'' t) (''> {'' @ call_text k @ ''} <'') Y'"
    for X' Y' by (rule keep [OF _ _ _ p1]) simp_all
  have b: "replace_literal (wrapped_literal CHR ''>'' dq CHR ''<'' t) (''> {'' @ call_text k @ ''} <'')
             (X' @ braced_call K @ Y')
           = replace_literal (wrapped_literal CHR ''>'' dq CHR ''<'' t) (''> {'' @ call_text k @ ''} <'') X'
             @ braced_call K
             @ replace_literal (wrapped_literal CHR ''>'' dq CHR ''<'' t) (''> {'' @ call_text k @ ''} <'') Y'"
    for X' Y' by (rule keep [OF _ _ _ p1]) simp_all
  have c: "replace_literal (wrapped_literal CHR ''{'' sq CHR ''}'' t) (''{'' @ call_text k @ ''}'')
             (X' @ braced_call K @ Y')
           = replace_literal (wrapped_literal CHR ''{'' sq CHR ''}'' t) (''{'' @ call_text k @ ''}'') X'
             @ braced_call K
             @ replace_literal (wrapped_literal CHR ''{'' sq CHR ''}'' t) (''{'' @ call_text k @ ''}'') Y'"
    for X' Y' by (rule keep [OF _ _ _ p2]) simp_all
  have d: "replace_literal (wrapped_literal CHR ''{'' dq CHR ''}'' t) (''{'' @ call_text k @ ''}'')
             (X' @ braced_call K @ Y')
           = replace_literal (wrapped_literal CHR ''{'' dq CHR ''}'' t) (''{'' @ call_text k @ ''}'') X'
             @ braced_call K
             @ replace_literal (wrapped_literal CHR ''{'' dq CHR ''}'' t) (''{'' @ call_text k @ ''}'') Y'"
    for X' Y' by (rule keep [OF _ _ _ p2]) simp_all
  show ?thesis by (simp only: rewrite_text_passes [OF ne] a b c d)
qed

lemma rewrite_text_own:
  assumes q0: "q0 = sq \<or> q0 = dq" and T: "plain_text T" and K: "key_shape K"
    and ne: "T \<noteq> []" "toLowerCase T \<noteq> ''react''" "toLowerCase T \<noteq> ''use client''"
  shows "rewrite_text (T, K) (X @ braced q0 T @ Y)
         = rewrite_text (T, K) X @ braced_call K @ rewrite_text (T, K) Y"
proof -
  let ?t1 = "''> {'' @ call_text K @ ''} <''" and ?t2 = "''{'' @ call_text K @ ''}''"
  let ?P1 = "replace_literal (wrapped_literal CHR ''>'' sq CHR ''<'' T) ?t1"
  let ?P2 = "replace_literal (wrapped_literal CHR ''>'' dq CHR ''<'' T) ?t1"
  let ?P3 = "replace_literal (wrapped_literal CHR ''{'' sq CHR ''}'' T) ?t2"
  let ?P4 = "replace_literal (wrapped_literal CHR ''{'' dq CHR ''}'' T) ?t2"
  have tb: "CHR ''{'' \<notin> set T" using T by (simp add: plain_text_def)
  have kd: "CHR ''$'' \<notin> set K" using key_shape_free(3) [OF K] .
  have p1: "CHR ''$'' \<notin> set ?t1" and p2: "CHR ''$'' \<notin> set ?t2"
    using call_text_plain [OF kd] by simp_all
  have t2: "?t2 = braced_call K" by (simp add: braced_call_def)
  note keep = literal_pass_braced_keep [OF q0 T T]
  have 1: "?P1 (X' @ braced q0 T @ Y') = ?P1 X' @ braced q0 T @ ?P1 Y'" for X' Y'
    by (rule keep [OF _ _ _ _ p1]) simp_all
  have 2: "?P2 (X' @ braced q0 T @ Y') = ?P2 X' @ braced q0 T @ ?P2 Y'" for X' Y'
    by (rule keep [OF _ _ _ _ p1]) simp_all
  have 34: "?P4 (?P3 (X' @ braced q0 T @ Y')) = ?P4 (?P3 X') @ braced_call K @ ?P4 (?P3 Y')"
    for X' Y'
  proof (cases "q0 = sq")
    case True
    have "?P3 (X' @ braced sq T @ Y') = ?P3 X' @ ?t2 @ ?P3 Y'"
      by (rule literal_pass_own [OF _ tb p2]) simp
    moreover have "?P4 (?P3 X' @ braced_call K @ ?P3 Y')
                     = ?P4 (?P3 X') @ braced_call K @ ?P4 (?P3 Y')"
      by (rule literal_pass_call_keep [OF K tb _ _ _ p2]) simp_all
    ultimately show ?thesis using True by (simp only: t2)
  next
    case False
    then have d: "q0 = dq" using q0 by simp
    have "?P3 (X' @ braced q0 T @ Y') = ?P3 X' @ braced q0 T @ ?P3 Y'"
      by (rule keep [OF _ _ _ _ p2]) (simp_all add: d chars_not_quote)
    moreover have "?P4 (?P3 X' @ braced dq T @ ?P3 Y') = ?P4 (?P3 X') @ ?t2 @ ?P4 (?P3 Y')"
      by (rule literal_pass_own [OF _ tb p2]) simp
    ultimately show ?thesis using d by (simp only: t2)
  qed
  show ?thesis
    by (simp only: rewrite_text_passes [OF ne] 1 2 34)
qed

lemma fold_rewrite_text_call:
  assumes "key_shape K"
  shows "\<forall>tk \<in> set xs. CHR ''{'' \<notin> set (fst tk) \<and> CHR ''$'' \<notin> set (snd tk) \<Longrightarrow>
         fold rewrite_text xs (X @ braced_call K @ Y)
         = fold rewrite_text xs X @ braced_call K @ fold rewrite_text xs Y"
proof (induction xs arbitrary: X Y)
  case Nil
  show ?case by simp
next
  case (Cons tk xs)
  obtain t k where tk: "tk = (t, k)" by (cases tk)
  with Cons.prems have "CHR ''{'' \<notin> set t" "CHR ''$'' \<notin> set k" by simp_all
  from rewrite_text_call [OF assms this] Cons show ?case by (simp add: tk)
qed

lemma fold_rewrite_text_braced:
  assumes "q0 = sq \<or> q0 = dq" and "plain_text T"
  shows "\<forall>tk \<in> set xs. plain_text (fst tk) \<and> CHR ''$'' \<notin> set (snd tk) \<and> fst tk \<noteq> T \<Longrightarrow>
         fold rewrite_text xs (X @ braced q0 T @ Y)
         = fold rewrite_text xs X @ braced q0 T @ fold rewrite_text xs Y"
proof (induction xs arbitrary: X Y)
  case Nil
  show ?case by simp
next
  case (Cons tk xs)
  obtain t k where tk: "tk = (t, k)" by (cases tk)
  with Cons.prems have "plain_text t" "t \<noteq> T" "CHR ''$'' \<notin> set k" by simp_all
  from rewrite_text_other [OF assms this] Cons show ?case by (simp add: tk)
qed

lemma keyLike_pass_call:
  assumes "key_shape K"
  shows "keyLike_from allKeys [] (X @ braced_call K @ Y)
         = keyLike_from allKeys [] X @ braced_call K @ keyLike_from allKeys [] Y"
proof -
  have fb: "keyLike_replace allKeys mt g ((X @ CHR ''{'' # (call_text K @ ''}'')) @ y) af
              = keyLike_replace allKeys mt g y af" for mt g y af
    using keyLike_replace_behind [of allKeys mt g "X @ CHR ''{'' # call_text K" y af] by simp
  have mid: "replace_all keyLike (keyLike_replace allKeys) X (CHR ''{'' # (call_text K @ ''}'') @ Y)
      = braced_call K @ replace_all keyLike (keyLike_replace allKeys)
                          (X @ CHR ''{'' # (call_text K @ ''}'')) Y"
    using call_keyLike [OF assms, of allKeys X Y] by (simp add: braced_call_brace)
  show ?thesis
    unfolding keyLike_from_def
    using scan_three [of keyLike "keyLike_replace allKeys" X "call_text K @ ''}''" Y "braced_call K",
        OF local_keyLike keyLike_replace_ahead fb mid]
    by (simp add: braced_call_brace)
qed

lemma tCall_pass_call:
  assumes "key_shape K"
  shows "replace_all tCall tCall_replace [] (X @ braced_call K @ Y)
         = replace_all tCall tCall_replace [] X @ braced_call K @ replace_all tCall tCall_replace [] Y"
proof -
  have len: "10 \<le> length (CHR ''{'' # call_text K)" by (simp add: call_text_def)
  have eq: "CHR ''='' \<notin> set (CHR ''{'' # call_text K)"
    using braced_call_chars(3) [OF assms] by (simp add: braced_call_def)
  have fb: "tCall_replace mt g ((X @ CHR ''{'' # (call_text K @ ''}'')) @ y) af
              = tCall_replace mt g y af" for mt g y af
    using tCall_replace_behind [OF len eq, of mt g X y af] by simp
  have none: "tCall (p @ Y) = None" if "suffix p (CHR ''{'' # (call_text K @ ''}''))" "p \<noteq> []" for p
    using call_tCall_none [OF assms, of p Y] that by (simp add: braced_call_brace)
  show ?thesis
    using scan_three_keep [of tCall tCall_replace X "call_text K @ ''}''" Y,
        OF local_tCall tCall_replace_ahead fb none]
    by (simp add: braced_call_brace)
qed

lemma propKey_pass_call:
  assumes "key_shape K" and "q = sq \<or> q = dq" and "CHR ''{'' \<notin> set f" and "CHR ''}'' \<notin> set f"
  shows "replace_all (propKey f q) (propKey_replace allKeys f) [] (X @ braced_call K @ Y)
         = replace_all (propKey f q) (propKey_replace allKeys f) [] X @ braced_call K
           @ replace_all (propKey f q) (propKey_replace allKeys f) [] Y"
proof -
  have none: "propKey f q (p @ Y) = None" if "suffix p (CHR ''{'' # (call_text K @ ''}''))" "p \<noteq> []" for p
    using call_propKey_none [OF assms(1,2,4), of p Y] that by (simp add: braced_call_brace)
  have fa: "propKey_replace allKeys f mt g b (x @ CHR ''{'' # R) = propKey_replace allKeys f mt g b x"
    for mt g b x R by (simp add: propKey_replace_def)
  have fb: "propKey_replace allKeys f mt g ((X @ CHR ''{'' # (call_text K @ ''}'')) @ y) af
              = propKey_replace allKeys f mt g y af" for mt g y af
    by (simp add: propKey_replace_def)
  show ?thesis
    using scan_three_keep [of "propKey f q" "propKey_replace allKeys f" X "call_text K @ ''}''" Y,
        OF local_propKey [OF assms(2,3)] fa fb none]
    by (simp add: braced_call_brace)
qed

lemma fields_no_brace: "\<forall>f \<in> set fields. CHR ''{'' \<notin> set f \<and> CHR ''}'' \<notin> set f"
  by (simp add: fields_def)

lemma fields_pass_call:
  assumes "key_shape K"
  shows "fold (rewrite_field allKeys) fields (X @ braced_call K @ Y)
         = fold (rewrite_field allKeys) fields X @ braced_call K
           @ fold (rewrite_field allKeys) fields Y"
proof -
  have "(\<forall>f \<in> set fs. CHR ''{'' \<notin> set f \<and> CHR ''}'' \<notin> set f) \<Longrightarrow>
        fold (rewrite_field allKeys) fs (X @ braced_call K @ Y)
        = fold (rewrite_field allKeys) fs X @ braced_call K @ fold (rewrite_field allKeys) fs Y"
    for fs X Y
  proof (induction fs arbitrary: X Y)
    case Nil
    show ?case by simp
  next
    case (Cons f fs)
    then have f: "CHR ''{'' \<notin> set f" "CHR ''}'' \<notin> set f" by simp_all
    have "rewrite_field allKeys f (X @ braced_call K @ Y)
            = rewrite_field allKeys f X @ braced_call K @ rewrite_field allKeys f Y"
      by (simp only: rewrite_field_def propKey_pass_call [OF assms _ f] simp_thms)
    with Cons show ?case by simp
  qed
  with fields_no_brace show ?thesis by blast
qed

text \<open>The entries of the map from text to key.\<close>

lemma map_set_fst: "fst ` set (map_set a b m) = insert a (fst ` set m)"
  by (induction m) auto

lemma map_set_distinct: "distinct (map fst m) \<Longrightarrow> distinct (map fst (map_set a b m))"
  by (induction m) (auto simp: map_set_fst)

lemma textToKey_distinct: "distinct (map fst (textToKey entries))"
proof -
  have "distinct (map fst m) \<Longrightarrow>
        distinct (map fst (fold (\<lambda>e m. map_set (trim (en e)) (key e) m) entries m))" for m
    by (induction entries arbitrary: m) (simp_all add: map_set_distinct)
  then show ?thesis by (simp add: textToKey_def)
qed

lemma map_set_subset: "set (map_set a b m) \<subseteq> insert (a, b) (set m)"
  by (induction m) auto

lemma textToKey_from:
  "(t, k) \<in> set (textToKey entries) \<Longrightarrow> \<exists>e \<in> set entries. t = trim (en e) \<and> k = key e"
proof -
  have "(t, k) \<in> set (fold (\<lambda>e m. map_set (trim (en e)) (key e) m) ents m) \<Longrightarrow>
        (t, k) \<in> set m \<or> (\<exists>e \<in> set ents. t = trim (en e) \<and> k = key e)" for ents m
  proof (induction ents arbitrary: m)
    case Nil
    then show ?case by simp
  next
    case (Cons e ents)
    from Cons.IH [of "map_set (trim (en e)) (key e) m"] Cons.prems
    have "(t, k) \<in> set (map_set (trim (en e)) (key e) m)
          \<or> (\<exists>e \<in> set ents. t = trim (en e) \<and> k = key e)" by simp
    with map_set_subset [of "trim (en e)" "key e" m] show ?case by auto
  qed
  from this [of entries "[]"] show "(t, k) \<in> set (textToKey entries) \<Longrightarrow>
      \<exists>e \<in> set entries. t = trim (en e) \<and> k = key e" by (simp add: textToKey_def)
qed

lemma textToKey_texts: "fst ` set (textToKey entries) = (\<lambda>e. trim (en e)) ` set entries"
proof -
  have "fst ` set (fold (\<lambda>e m. map_set (trim (en e)) (key e) m) ents m)
          = fst ` set m \<union> (\<lambda>e. trim (en e)) ` set ents" for ents m
    by (induction ents arbitrary: m) (auto simp: map_set_fst)
  from this [of entries "[]"] show ?thesis by (simp add: textToKey_def)
qed

text \<open>
  Claim C2, amended. Take a store in which no English text holds a quote character, an
  opening brace or a closing angle bracket and no key holds a dollar sign, and an entry
  \<open>e\<close> of it whose trimmed English text \<open>T\<close> is not empty, is not \<open>react\<close> or
  \<open>use client\<close> in any letter case and belongs to no entry with another key, and whose
  key \<open>K\<close> has the key shape. Then for all texts \<open>pre\<close> and \<open>post\<close> the source
  \<open>pre{'T'}post\<close>, and likewise \<open>pre{"T"}post\<close>, is rewritten to the call
  \<open>{__i18n('K')}\<close> standing between what the rewriter makes of \<open>pre\<close> alone and what it
  makes of \<open>post\<close> alone: the call stands where the literal stood, and the literal is
  gone.
\<close>

theorem rewrite_braced_literal:
  assumes e: "e \<in> set entries" and T: "T = trim (en e)"
    and one: "\<forall>e' \<in> set entries. trim (en e') = T \<longrightarrow> key e' = key e"
    and ne: "T \<noteq> []" "toLowerCase T \<noteq> ''react''" "toLowerCase T \<noteq> ''use client''"
    and K: "key_shape (key e)"
    and plain: "\<forall>e' \<in> set entries. plain_text (trim (en e')) \<and> CHR ''$'' \<notin> set (key e')"
    and q: "q = sq \<or> q = dq"
  shows "rewriteWithKeys entries (pre @ braced q T @ post)
         = rewriteWithKeys entries pre @ braced_call (key e) @ rewriteWithKeys entries post"
proof -
  let ?xs = "textToKey entries"
  have pT: "plain_text T" using e T plain by blast
  have "T \<in> fst ` set ?xs" using e T by (auto simp: textToKey_texts)
  then obtain k where "(T, k) \<in> set ?xs" by auto
  moreover from this textToKey_from [of T k entries] one have "k = key e" by auto
  ultimately have mem: "(T, key e) \<in> set ?xs" by simp
  then obtain as bs where split: "?xs = as @ (T, key e) # bs" by (auto dest: split_list)
  with textToKey_distinct [of entries] have na: "T \<notin> fst ` set as" and nb: "T \<notin> fst ` set bs"
    by auto
  have all: "\<forall>tk \<in> set ?xs. plain_text (fst tk) \<and> CHR ''$'' \<notin> set (snd tk)"
  proof
    fix tk assume "tk \<in> set ?xs"
    then have "(fst tk, snd tk) \<in> set ?xs" by simp
    from textToKey_from [OF this] plain
    show "plain_text (fst tk) \<and> CHR ''$'' \<notin> set (snd tk)" by auto
  qed
  have A: "\<forall>tk \<in> set as. plain_text (fst tk) \<and> CHR ''$'' \<notin> set (snd tk) \<and> fst tk \<noteq> T"
    using all na split by auto
  have B: "\<forall>tk \<in> set bs. CHR ''{'' \<notin> set (fst tk) \<and> CHR ''$'' \<notin> set (snd tk)"
    using all split by (auto simp: plain_text_def)
  have 1: "fold rewrite_text as (pre @ braced q T @ post)
             = fold rewrite_text as pre @ braced q T @ fold rewrite_text as post"
    using fold_rewrite_text_braced [OF q pT A] .
  have 2: "rewrite_text (T, key e) (X @ braced q T @ Y)
             = rewrite_text (T, key e) X @ braced_call (key e) @ rewrite_text (T, key e) Y" for X Y
    using rewrite_text_own [OF q pT K ne] .
  have 3: "fold rewrite_text bs (X @ braced_call (key e) @ Y)
             = fold rewrite_text bs X @ braced_call (key e) @ fold rewrite_text bs Y" for X Y
    using fold_rewrite_text_call [OF K B] .
  have lit: "fold rewrite_text ?xs (pre @ braced q T @ post)
          = fold rewrite_text ?xs pre @ braced_call (key e) @ fold rewrite_text ?xs post"
    by (simp only: split fold_append fold_simps comp_apply 1 2 3)
  show ?thesis
    by (simp only: rewriteWithKeys_def Let_def lit keyLike_pass_call [OF K] tCall_pass_call [OF K]
        fields_pass_call [OF K])
qed

theorem rewrite_braced_literal_witness:
  "rewriteWithKeys demo_rows (''<button>'' @ braced sq ''Submit'' @ ''</button>'')
     = ''<button>{__i18n('' @ [sq] @ ''button.submit'' @ [sq] @ '')}</button>''
   \<and> rewriteWithKeys demo_rows
       ((import_line @ button_open) @ braced dq ''Submit'' @ ''</button>'')
     = (import_line @ button_open) @ braced_call ''button.submit'' @ ''</button>''"
proof -
  have e: "demo_rows ! 0 \<in> set demo_rows" by (simp add: demo_rows_def)
  have t: "''Submit'' = trim (en (demo_rows ! 0))" by code_simp
  have one: "\<forall>e' \<in> set demo_rows. trim (en e') = ''Submit'' \<longrightarrow> key e' = key (demo_rows ! 0)"
    by code_simp
  have ne: "''Submit'' \<noteq> []" "toLowerCase ''Submit'' \<noteq> ''react''"
    "toLowerCase ''Submit'' \<noteq> ''use client''" by code_simp+
  have k: "key_shape (key (demo_rows ! 0))" by code_simp
  have plain: "\<forall>e' \<in> set demo_rows. plain_text (trim (en e')) \<and> CHR ''$'' \<notin> set (key e')"
    by code_simp
  have q: "sq = sq \<or> sq = dq" "dq = sq \<or> dq = dq" by simp_all
  have key: "key (demo_rows ! 0) = ''button.submit''" by (simp add: demo_rows_def)
  have r1: "rewriteWithKeys demo_rows ''<button>'' = ''<button>''" by code_simp
  have r2: "rewriteWithKeys demo_rows ''</button>'' = ''</button>''" by code_simp
  have r3: "rewriteWithKeys demo_rows (import_line @ button_open) = import_line @ button_open"
    by code_simp
  from rewrite_braced_literal [OF e t one ne k plain q(1), of "''<button>''" "''</button>''"]
  have 1: "rewriteWithKeys demo_rows (''<button>'' @ braced sq ''Submit'' @ ''</button>'')
             = ''<button>{__i18n('' @ [sq] @ ''button.submit'' @ [sq] @ '')}</button>''"
    by (simp only: r1 r2 key) (simp add: braced_call_def call_text_def)
  from rewrite_braced_literal [OF e t one ne k plain q(2), of "import_line @ button_open" "''</button>''"]
  have 2: "rewriteWithKeys demo_rows
             ((import_line @ button_open) @ braced dq ''Submit'' @ ''</button>'')
           = (import_line @ button_open) @ braced_call ''button.submit'' @ ''</button>''"
    by (simp only: r2 r3 key)
  from 1 2 show ?thesis by (rule conjI)
qed

text \<open>
  Claim C2, as stated, fails at two kinds of text. The store has the entry \<open>tech.react\<close>
  with the English text \<open>React\<close>, yet \<open><b>{'React'}</b>\<close> comes back as it was: the
  loop over the texts skips \<open>react\<close> and \<open>use client\<close>. And the entry
  \<open>navigation.home\<close> has the English text \<open>Home\<close>, yet \<open><a>{'Home'}</a>\<close> is
  rewritten to the call on \<open>social.home\<close>, another entry with that text, and the output
  holds no call on \<open>navigation.home\<close>.
\<close>

theorem rewrite_literal_counterexample:
  "key (react_rows ! 0) = ''tech.react'' \<and> en (react_rows ! 0) = ''React''
   \<and> rewriteWithKeys react_rows (''<b>'' @ braced sq ''React'' @ ''</b>'')
       = ''<b>'' @ braced sq ''React'' @ ''</b>''
   \<and> key (dup_rows ! 0) = ''navigation.home'' \<and> en (dup_rows ! 0) = ''Home''
   \<and> rewriteWithKeys dup_rows (''<a>'' @ braced sq ''Home'' @ ''</a>'')
       = ''<a>'' @ braced_call ''social.home'' @ ''</a>''
   \<and> \<not> sublist (call_text ''navigation.home'')
           (rewriteWithKeys dup_rows (''<a>'' @ braced sq ''Home'' @ ''</a>''))"
  by code_simp

end
